theory Spec2Isabelle
  imports Main "HOL-Library.Word" "HOL-Library.Signed_Division"
begin

section \<open>Data model of bim (src/apps/bim.c)\<close>

text \<open>
  A cell is the packed bit-field struct \<^verbatim>\<open>char_t\<close>: a 4-bit display width, a 7-bit
  flag byte and a 21-bit codepoint. Storing a wider value into a field keeps its low
  bits, which is what \<open>word_of_int\<close> does.
\<close>

record char_t =
  display_width :: "4 word"
  flags :: "7 word"
  codepoint :: "21 word"

text \<open>
  A line is \<^verbatim>\<open>line_t\<close>. The flexible array \<^verbatim>\<open>text[]\<close> is the list \<open>cells\<close> of
  the allocated cells (live ones first, stale or never written ones after them); the
  C \<^verbatim>\<open>int\<close> fields are integers (no operation here comes near their range).
\<close>

record line_t =
  available :: int
  actual :: int
  istate :: int
  is_current :: int
  rev_status :: int
  cells :: "char_t list"

text \<open>
  The fields of \<^verbatim>\<open>global_config\<close> that the modelled functions read (the option
  \<^verbatim>\<open>smart_case\<close> is the field \<open>smart_case_opt\<close>).
\<close>

record global_config_t =
  history_enabled :: bool
  smart_case_opt :: bool
  can_unicode :: bool

text \<open>
  A journal record is \<^verbatim>\<open>history_t\<close>: the type tag with the members of the union
  that the tag gives a meaning to. Line snapshots are copies of the whole line.
\<close>

datatype history_t =
    HISTORY_SENTINEL
  | HISTORY_INSERT int int int
  | HISTORY_DELETE int int int
  | HISTORY_REPLACE int int int int
  | HISTORY_REMOVE_LINE int line_t
  | HISTORY_ADD_LINE int
  | HISTORY_REPLACE_LINE int line_t line_t
  | HISTORY_MERGE_LINES int int
  | HISTORY_SPLIT_LINE int int
  | HISTORY_BREAK

text \<open>
  A buffer is \<^verbatim>\<open>buffer_t\<close>. The pointer array \<^verbatim>\<open>lines\<close> is the list of its
  allocated slots; a slot is \<open>None\<close> when it holds no valid pointer (NULL, never
  written, or freed). The doubly linked journal is the list \<open>journal\<close>, oldest record
  first, each record with the address \<^verbatim>\<open>malloc\<close> gave it (addresses are handed out
  in increasing order and never reused); \<open>history\<close> is the position of
  \<^verbatim>\<open>env->history\<close> in that list and \<open>last_save_history\<close> the address saved by
  \<^verbatim>\<open>write_file\<close>.
\<close>

record buffer_t =
  loading :: bool
  modified :: bool
  indent :: bool
  mode :: int
  tabstop :: int
  offset :: int
  coffset :: int
  line_no :: int
  line_count :: int
  line_avail :: int
  col_no :: int
  preferred_column :: int
  search :: "32 word list option"
  lines :: "line_t option list"
  journal :: "(nat \<times> history_t) list"
  history :: nat
  last_save_history :: nat
  next_addr :: nat

definition MODE_NORMAL :: int where "MODE_NORMAL = 0"
definition MODE_INSERT :: int where "MODE_INSERT = 1"
definition MODE_REPLACE :: int where "MODE_REPLACE = 3"

text \<open>
  What C leaves undefined is a value of the model: an access outside an allocation, the
  use of a pointer that is not valid, a division by zero, and a loop that never ends.
\<close>

datatype fault = OutOfBounds | BadPointer | DivisionByZero | Diverges

definition rbind :: "fault + 'a \<Rightarrow> ('a \<Rightarrow> fault + 'b) \<Rightarrow> fault + 'b" where
  "rbind r f = (case r of Inl e \<Rightarrow> Inl e | Inr x \<Rightarrow> f x)"

text \<open>\<^verbatim>\<open>env->lines[i]\<close> dereferenced, \<^verbatim>\<open>line->text[k]\<close> read, and both written.\<close>

definition slot :: "buffer_t \<Rightarrow> int \<Rightarrow> fault + line_t" where
  "slot env i =
     (if 0 \<le> i \<and> i < int (length (lines env))
      then (case lines env ! nat i of None \<Rightarrow> Inl BadPointer | Some l \<Rightarrow> Inr l)
      else Inl OutOfBounds)"

definition set_slot :: "buffer_t \<Rightarrow> int \<Rightarrow> line_t \<Rightarrow> fault + buffer_t" where
  "set_slot env i l =
     (if 0 \<le> i \<and> i < int (length (lines env))
      then Inr (env\<lparr>lines := (lines env)[nat i := Some l]\<rparr>)
      else Inl OutOfBounds)"

text \<open>
  \<^verbatim>\<open>text\<close> is the flexible array member at the end of \<^verbatim>\<open>line_t\<close>, behind five
  \<^verbatim>\<open>int\<close> fields, and a \<^verbatim>\<open>char_t\<close> is one packed 32-bit word. So the five cells before
  \<^verbatim>\<open>text[0]\<close> lie inside the allocation of the line: \<^verbatim>\<open>text[-1]\<close> is the word of
  \<^verbatim>\<open>rev_status\<close>, \<^verbatim>\<open>text[-5]\<close> that of \<^verbatim>\<open>available\<close>. \<open>int_as_cell\<close> reads such a
  word through the bit-fields of \<^verbatim>\<open>char_t\<close>: \<^verbatim>\<open>display_width\<close> is its low 4 bits,
  \<^verbatim>\<open>flags\<close> the next 7 and \<^verbatim>\<open>codepoint\<close> the upper 21.
\<close>

definition int_as_cell :: "int \<Rightarrow> char_t" where
  "int_as_cell v =
     \<lparr>display_width = word_of_int v, flags = word_of_int (v div 16),
      codepoint = word_of_int (v div 2048)\<rparr>"

definition header_word :: "line_t \<Rightarrow> int \<Rightarrow> int" where
  "header_word l k =
     (if k = -1 then rev_status l
      else if k = -2 then is_current l
      else if k = -3 then istate l
      else if k = -4 then actual l
      else available l)"

text \<open>
  A read of \<^verbatim>\<open>line->text[k]\<close>: a cell of the array, a word of the header for
  \<open>-5 \<le> k < 0\<close>, and a fault outside the allocation.
\<close>

definition cell_at :: "line_t \<Rightarrow> int \<Rightarrow> fault + char_t" where
  "cell_at l k =
     (if 0 \<le> k \<and> k < int (length (cells l)) then Inr (cells l ! nat k)
      else if -5 \<le> k \<and> k < 0 then Inr (int_as_cell (header_word l k))
      else Inl OutOfBounds)"

definition set_cell :: "line_t \<Rightarrow> int \<Rightarrow> char_t \<Rightarrow> fault + line_t" where
  "set_cell l k c =
     (if 0 \<le> k \<and> k < int (length (cells l))
      then Inr (l\<lparr>cells := (cells l)[nat k := c]\<rparr>)
      else Inl OutOfBounds)"

text \<open>
  \<^verbatim>\<open>memmove(&a[dst], &a[src], n * sizeof a[0])\<close> on an array held as a list: the
  \<open>n\<close> elements from \<open>src\<close> on are copied to \<open>dst\<close> on; both ranges must lie in the
  allocation.
\<close>

definition memmove :: "'a list \<Rightarrow> int \<Rightarrow> int \<Rightarrow> int \<Rightarrow> fault + 'a list" where
  "memmove a dst src n =
     (if 0 \<le> n \<and> 0 \<le> dst \<and> 0 \<le> src \<and> dst + n \<le> int (length a) \<and> src + n \<le> int (length a)
      then Inr (take (nat dst) a @ take (nat n) (drop (nat src) a) @ drop (nat (dst + n)) a)
      else Inl OutOfBounds)"

text \<open>The first \<open>actual\<close> cells of a line, and their codepoints.\<close>

definition live :: "line_t \<Rightarrow> char_t list" where
  "live l = take (nat (actual l)) (cells l)"

definition line_text :: "line_t \<Rightarrow> 21 word list" where
  "line_text l = map codepoint (live l)"

text \<open>The live length of a line of the buffer, the lines counted from 1.\<close>

definition line_len :: "buffer_t \<Rightarrow> int \<Rightarrow> int" where
  "line_len env line = (case slot env (line - 1) of Inl e \<Rightarrow> 0 | Inr l \<Rightarrow> actual l)"

section \<open>Tab widths\<close>

text \<open>
  The loop of \<^verbatim>\<open>recalculate_tabs\<close> over the live cells, \<open>j\<close> the display column
  reached. \<open>smod\<close> is the remainder of C; the assignment to the 4-bit field keeps the
  low four bits.
\<close>

fun recalculate_tabs_loop :: "int \<Rightarrow> int \<Rightarrow> char_t list \<Rightarrow> fault + char_t list" where
  "recalculate_tabs_loop ts j [] = Inr []"
| "recalculate_tabs_loop ts j (c # cs) =
     (if codepoint c = 9 \<and> ts = 0 then Inl DivisionByZero
      else
        let c' = (if codepoint c = 9
                  then c\<lparr>display_width := word_of_int (ts - (j smod ts))\<rparr> else c)
        in case recalculate_tabs_loop ts (j + uint (display_width c')) cs of
             Inl e \<Rightarrow> Inl e
           | Inr r \<Rightarrow> Inr (c' # r))"

definition recalculate_tabs :: "buffer_t \<Rightarrow> line_t \<Rightarrow> fault + line_t" where
  "recalculate_tabs env line =
     (if loading env then Inr line
      else if int (length (cells line)) < actual line then Inl OutOfBounds
      else case recalculate_tabs_loop (tabstop env) 0 (live line) of
             Inl e \<Rightarrow> Inl e
           | Inr r \<Rightarrow> Inr (line\<lparr>cells := r @ drop (nat (actual line)) (cells line)\<rparr>))"

section \<open>Search\<close>

text \<open>
  \<^verbatim>\<open>tolower\<close> is the C library's function: it is not part of \<^verbatim>\<open>bim.c\<close>, and what it
  maps depends on the library and on the locale that \<^verbatim>\<open>setlocale(LC_ALL, "")\<close> selects.
  It is a parameter \<open>lower\<close> of the model.

  \<^verbatim>\<open>search_matches(uint32_t a, uint32_t b, int mode)\<close>; the \<^verbatim>\<open>uint32_t\<close> arguments
  are converted to \<^verbatim>\<open>int\<close> for \<^verbatim>\<open>tolower\<close>.
\<close>

definition search_matches :: "(int \<Rightarrow> int) \<Rightarrow> 32 word \<Rightarrow> 32 word \<Rightarrow> int \<Rightarrow> bool" where
  "search_matches lower a b smode =
     (if smode = 0 then a = b
      else if smode = 1 then lower (sint a) = lower (sint b)
      else False)"

text \<open>
  A needle is a NUL-terminated \<^verbatim>\<open>uint32_t\<close> string: the list holds the words before
  the terminator, and a zero word inside the list ends the string as well.
\<close>

fun smart_case_loop :: "(int \<Rightarrow> int) \<Rightarrow> 32 word list \<Rightarrow> int" where
  "smart_case_loop lower [] = 1"
| "smart_case_loop lower (c # s) =
     (if c = 0 then 1
      else if lower (sint c) \<noteq> sint c then 0
      else smart_case_loop lower s)"

definition smart_case :: "global_config_t \<Rightarrow> (int \<Rightarrow> int) \<Rightarrow> 32 word list \<Rightarrow> int" where
  "smart_case cfg lower str = (if \<not> smart_case_opt cfg then 0 else smart_case_loop lower str)"



text \<open>
  \<^verbatim>\<open>find_match\<close>. Each function returns, with its result, the list of the indices
  \<open>k\<close> at which it evaluated \<^verbatim>\<open>line->text[k]\<close>, in order (for \<open>find_match\<close> paired
  with the index of the line in \<^verbatim>\<open>env->lines\<close>).

  \<open>match_at\<close> is the innermost loop, from \<open>k\<close> with the rest of the needle: it
  answers whether the loop reached the needle's terminator while \<open>k < actual + 1\<close>.
\<close>

fun match_at ::
  "(int \<Rightarrow> int) \<Rightarrow> line_t \<Rightarrow> int \<Rightarrow> int \<Rightarrow> 32 word list \<Rightarrow> int list \<times> (fault + bool)" where
  "match_at lower line ic k [] = ([], Inr (k < actual line + 1))"
| "match_at lower line ic k (m # ms) =
     (if \<not> k < actual line + 1 then ([], Inr False)
      else if m = 0 then ([], Inr True)
      else case cell_at line k of
             Inl e \<Rightarrow> ([k], Inl e)
           | Inr c \<Rightarrow>
               if \<not> search_matches lower m (ucast (codepoint c)) ic then ([k], Inr False)
               else let (r, res) = match_at lower line ic (k + 1) ms in (k # r, res))"

function find_in_line ::
  "(int \<Rightarrow> int) \<Rightarrow> line_t \<Rightarrow> int \<Rightarrow> 32 word list \<Rightarrow> int \<Rightarrow> int list \<times> (fault + int option)" where
  "find_in_line lower line ic str j =
     (if j < actual line + 1
      then (case match_at lower line ic j str of
              (r, Inl e) \<Rightarrow> (r, Inl e)
            | (r, Inr True) \<Rightarrow> (r, Inr (Some (j + 1)))
            | (r, Inr False) \<Rightarrow>
                (case find_in_line lower line ic str (j + 1) of (r', res) \<Rightarrow> (r @ r', res)))
      else ([], Inr None))"
  by pat_completeness auto
termination
  by (relation "measure (\<lambda>(lower, line, ic, str, j). nat (actual line + 1 - j))") auto

declare find_in_line.simps [simp del]

function find_match_lines ::
  "(int \<Rightarrow> int) \<Rightarrow> buffer_t \<Rightarrow> int \<Rightarrow> 32 word list \<Rightarrow> int \<Rightarrow> int
     \<Rightarrow> (int \<times> int) list \<times> (fault + (int \<times> int) option)" where
  "find_match_lines lower env ic str i col =
     (if i \<le> line_count env
      then (case slot env (i - 1) of
              Inl e \<Rightarrow> ([], Inl e)
            | Inr line \<Rightarrow>
                (case find_in_line lower line ic str (col - 1) of
                   (r, Inl e) \<Rightarrow> (map (Pair (i - 1)) r, Inl e)
                 | (r, Inr (Some c)) \<Rightarrow> (map (Pair (i - 1)) r, Inr (Some (i, c)))
                 | (r, Inr None) \<Rightarrow>
                     (case find_match_lines lower env ic str (i + 1) 0 of
                        (r', res) \<Rightarrow> (map (Pair (i - 1)) r @ r', res))))
      else ([], Inr None))"
  by pat_completeness auto
termination
  by (relation "measure (\<lambda>(lower, env, ic, str, i, col). nat (line_count env + 1 - i))") auto

declare find_match_lines.simps [simp del]

text \<open>
  \<open>find_match\<close> answers \<open>None\<close> where the C function leaves \<^verbatim>\<open>*out_line\<close> and
  \<^verbatim>\<open>*out_col\<close> untouched (its callers preset them to -1).
\<close>

definition find_match ::
  "global_config_t \<Rightarrow> (int \<Rightarrow> int) \<Rightarrow> buffer_t \<Rightarrow> int \<Rightarrow> int \<Rightarrow> 32 word list
     \<Rightarrow> (int \<times> int) list \<times> (fault + (int \<times> int) option)" where
  "find_match cfg lower env from_line from_col str =
     find_match_lines lower env (smart_case cfg lower str) str from_line from_col"

text \<open>\<^verbatim>\<open>set_preferred_column\<close>: the display column of the cursor.\<close>

definition set_preferred_column :: "buffer_t \<Rightarrow> fault + buffer_t" where
  "set_preferred_column env =
     rbind (slot env (line_no env - 1)) (\<lambda>line.
       let n = min (actual line) (col_no env - 1) in
       if int (length (cells line)) < n then Inl OutOfBounds
       else Inr (env\<lparr>preferred_column :=
                   sum_list (map (\<lambda>c. uint (display_width c)) (take (nat n) (cells line)))\<rparr>))"



text \<open>
  What the specification says of \<open>search_next\<close>. The needle occurs at a position (line
  and column, both from 1) when the live cells of the line from that column on begin
  with it, each codepoint compared as the search mode says. The positions from one on,
  in reading order, are the rest of its line and then the later lines; the first match
  is the first of them where the needle occurs. The next match is the first match
  strictly after the cursor, and the first match from the start of the buffer when
  there is none.
\<close>

definition occurs_in ::
  "(int \<Rightarrow> int) \<Rightarrow> int \<Rightarrow> 32 word list \<Rightarrow> line_t \<Rightarrow> int \<Rightarrow> bool" where
  "occurs_in lower ic needle l col =
     (1 \<le> col \<and> col - 1 + int (length needle) \<le> actual l
      \<and> list_all2 (\<lambda>m x. search_matches lower m (ucast x) ic) needle
           (take (length needle) (drop (nat (col - 1)) (line_text l))))"

definition occurs_at ::
  "(int \<Rightarrow> int) \<Rightarrow> int \<Rightarrow> 32 word list \<Rightarrow> buffer_t \<Rightarrow> int \<times> int \<Rightarrow> bool" where
  "occurs_at lower ic needle env pos =
     (case pos of (line, col) \<Rightarrow>
        (case slot env (line - 1) of
           Inl e \<Rightarrow> False
         | Inr l \<Rightarrow> occurs_in lower ic needle l col))"

definition positions_from :: "buffer_t \<Rightarrow> int \<Rightarrow> int \<Rightarrow> (int \<times> int) list" where
  "positions_from env line col =
     map (Pair line) [col .. line_len env line]
     @ concat (map (\<lambda>l. map (Pair l) [1 .. line_len env l]) [line + 1 .. line_count env])"

definition first_match ::
  "(int \<Rightarrow> int) \<Rightarrow> int \<Rightarrow> 32 word list \<Rightarrow> buffer_t \<Rightarrow> int \<Rightarrow> int \<Rightarrow> (int \<times> int) option" where
  "first_match lower ic needle env line col =
     find (occurs_at lower ic needle env) (positions_from env line col)"


text \<open>
  The buffers in which the reads of the search stay inside the lines: at least one
  line, every line allocated with a cell to spare after its live ones (\<open>find_match\<close>
  evaluates \<^verbatim>\<open>text[actual]\<close>), and \<^verbatim>\<open>rev_status\<close>, which it reads as \<^verbatim>\<open>text[-1]\<close>, one
  of the small values the editor stores there.
\<close>

definition searchable :: "buffer_t \<Rightarrow> bool" where
  "searchable env =
     (1 \<le> line_count env \<and> line_count env \<le> int (length (lines env))
      \<and> list_all (\<lambda>s. case s of None \<Rightarrow> False
                              | Some l \<Rightarrow> 0 \<le> actual l \<and> actual l < int (length (cells l))
                                         \<and> 0 \<le> rev_status l \<and> rev_status l < 2048)
           (take (nat (line_count env)) (lines env)))"
section \<open>Syntax recompute\<close>

text \<open>
  A lexer is the \<^verbatim>\<open>calculate\<close> function of a \<^verbatim>\<open>syntax_definition\<close>, a parameter of
  the model. It is called with the \<^verbatim>\<open>syntax_state\<close> (the line, its index, the state
  and the position \<open>i\<close>) and may look at the line slots before its own; it answers its
  return value, the new \<open>i\<close> and the flags it leaves on the live cells (the lexers
  write nothing else: they go through the \<^verbatim>\<open>paint\<close> macro).
\<close>

type_synonym lexer =
  "line_t option list \<Rightarrow> line_t \<Rightarrow> int \<Rightarrow> int \<Rightarrow> int \<Rightarrow> int \<times> int \<times> 7 word list"

fun paint_cells :: "char_t list \<Rightarrow> 7 word list \<Rightarrow> char_t list" where
  "paint_cells (c # cs) (f # fs) = c\<lparr>flags := f\<rparr> # paint_cells cs fs"
| "paint_cells cs fs = cs"

definition paint_line :: "line_t \<Rightarrow> 7 word list \<Rightarrow> line_t" where
  "paint_line l fl = l\<lparr>cells := paint_cells (cells l) (take (nat (actual l)) fl)\<rparr>"

text \<open>The first loop of \<^verbatim>\<open>recalculate_syntax\<close>: the flags of the live cells are cleared.\<close>

definition clear_flags :: "line_t \<Rightarrow> line_t" where
  "clear_flags l = l\<lparr>cells := map (\<lambda>c. c\<lparr>flags := 0\<rparr>) (live l) @ drop (nat (actual l)) (cells l)\<rparr>"

text \<open>
  The \<^verbatim>\<open>while (1)\<close> loop: the lexer is called again on the same line for as long as
  it returns 0. It answers the painted line and the first non-zero return value; a
  lexer that returns 0 for ever gives \<open>None\<close>.
\<close>

partial_function (option) lex_loop ::
  "lexer \<Rightarrow> line_t option list \<Rightarrow> line_t \<Rightarrow> int \<Rightarrow> int \<Rightarrow> int \<Rightarrow> (line_t \<times> int) option" where
  "lex_loop calc prev line lno st i =
     (case calc prev line lno st i of
        (r, i', fl) \<Rightarrow>
          if r \<noteq> 0 then Some (paint_line line fl, r)
          else lex_loop calc prev (paint_line line fl) lno r i')"

declare lex_loop.simps [code]

text \<open>
  \<^verbatim>\<open>recalculate_syntax(env->lines[line_no], line_no)\<close>; \<open>syn\<close> is
  \<^verbatim>\<open>env->syntax\<close> (\<open>None\<close> for NULL). Drawing is not modelled.
\<close>

function recalculate_syntax :: "lexer option \<Rightarrow> buffer_t \<Rightarrow> int \<Rightarrow> fault + buffer_t" where
  "recalculate_syntax syn env lno =
     (case slot env lno of
        Inl e \<Rightarrow> Inl e
      | Inr line \<Rightarrow>
          if int (length (cells line)) < actual line then Inl OutOfBounds
          else
            (case syn of
               None \<Rightarrow> Inr (env\<lparr>lines := (lines env)[nat lno := Some (clear_flags line)]\<rparr>)
             | Some calc \<Rightarrow>
                 (case lex_loop calc (take (nat lno) (lines env)) (clear_flags line) lno (istate line) 0 of
                    None \<Rightarrow> Inl Diverges
                  | Some (line', st) \<Rightarrow>
                      let env1 = env\<lparr>lines := (lines env)[nat lno := Some line']\<rparr> in
                      if lno + 1 < line_count env1
                      then (case slot env1 (lno + 1) of
                              Inl e \<Rightarrow> Inl e
                            | Inr nxt \<Rightarrow>
                                if istate nxt \<noteq> st
                                then
                                  let env2 = env1\<lparr>lines := (lines env1)[nat (lno + 1) := Some (nxt\<lparr>istate := st\<rparr>)]\<rparr>
                                  in if loading env2 then Inr env2
                                     else recalculate_syntax syn env2 (lno + 1)
                                else Inr env1)
                      else Inr env1)))"
  by pat_completeness auto
termination
  by (relation "measure (\<lambda>(syn, env, lno). nat (line_count env - lno))") auto

declare recalculate_syntax.simps [simp del]

text \<open>
  What the lexer produces for line \<open>lno\<close> of a buffer: the state it leaves for the
  next line.
\<close>

definition lexer_exit :: "lexer \<Rightarrow> buffer_t \<Rightarrow> int \<Rightarrow> int option" where
  "lexer_exit calc env lno =
     (case slot env lno of
        Inl e \<Rightarrow> None
      | Inr line \<Rightarrow>
          map_option snd
            (lex_loop calc (take (nat lno) (lines env)) (clear_flags line) lno (istate line) 0))"

section \<open>Paren matcher\<close>

text \<open>\<^verbatim>\<open>paren_pairs = "()[]{}<>"\<close>.\<close>

definition paren_pairs :: "int list" where
  "paren_pairs = [0x28, 0x29, 0x5B, 0x5D, 0x7B, 0x7D, 0x3C, 0x3E]"

text \<open>
  The loop over the table in \<^verbatim>\<open>find_matching_paren\<close>, from index \<open>i\<close>: the direction
  and the partner of \<open>start\<close>, or \<open>None\<close> when the table ends (\<^verbatim>\<open>paren_match\<close> stays 0).
\<close>

function paren_lookup :: "int \<Rightarrow> nat \<Rightarrow> (int \<times> int) option" where
  "paren_lookup start i =
     (if i < length paren_pairs
      then (if start = paren_pairs ! i
            then Some (if i mod 2 = 0 then 1 else - 1,
                       paren_pairs ! (if i mod 2 = 0 then i + 1 else i - 1))
            else paren_lookup start (i + 1))
      else None)"
  by pat_completeness auto
termination
  by (relation "measure (\<lambda>(start, i). length paren_pairs - i)") auto

declare paren_lookup.simps [simp del]

text \<open>
  The inner \<^verbatim>\<open>while\<close> loop, over the columns of one line. It answers \<open>(True, col, count)\<close>
  at the \<^verbatim>\<open>goto _match_found\<close> and \<open>(False, col, count)\<close> when \<open>col\<close> has left the
  line. With direction 0 (which the lookup never gives) the column would stand still.
\<close>

function paren_scan_line ::
  "line_t \<Rightarrow> int \<Rightarrow> int \<Rightarrow> 7 word \<Rightarrow> int \<Rightarrow> int \<Rightarrow> int \<Rightarrow> fault + (bool \<times> int \<times> int)" where
  "paren_scan_line line start pm fl dir col count =
     (if col > 0 \<and> col < actual line + 1
      then (case cell_at line (col - 1) of
              Inl e \<Rightarrow> Inl e
            | Inr c \<Rightarrow>
                let same = (and (flags c) 0xF = fl);
                    count1 = (if same \<and> uint (codepoint c) = start then count + 1 else count);
                    count2 = (if same \<and> uint (codepoint c) = pm then count1 - 1 else count1)
                in if same \<and> uint (codepoint c) = pm \<and> count2 = 0 then Inr (True, col, count2)
                   else if dir = 0 then Inl Diverges
                   else paren_scan_line line start pm fl dir (col + dir) count2)
      else Inr (False, col, count))"
  by pat_completeness auto
termination
  by (relation "measure (\<lambda>(line, start, pm, fl, dir, col, count).
                 if dir > 0 then nat (actual line + 1 - col) else nat col)") auto

declare paren_scan_line.simps [simp del]

text \<open>The \<^verbatim>\<open>do ... while (1)\<close> loop over the lines.\<close>

function paren_scan ::
  "buffer_t \<Rightarrow> int \<Rightarrow> int \<Rightarrow> 7 word \<Rightarrow> int \<Rightarrow> int \<Rightarrow> int \<Rightarrow> int \<Rightarrow> fault + (int \<times> int) option" where
  "paren_scan env start pm fl dir line col count =
     (case slot env (line - 1) of
        Inl e \<Rightarrow> Inl e
      | Inr l \<Rightarrow>
          (case paren_scan_line l start pm fl dir col count of
             Inl e \<Rightarrow> Inl e
           | Inr (True, c, n) \<Rightarrow> Inr (Some (line, c))
           | Inr (False, c, n) \<Rightarrow>
               if line + dir = 0 \<or> line + dir = line_count env + 1 then Inr None
               else (case slot env (line + dir - 1) of
                       Inl e \<Rightarrow> Inl e
                     | Inr l' \<Rightarrow>
                         if dir = 0 then Inl Diverges
                         else paren_scan env start pm fl dir (line + dir)
                                (if dir > 0 then 1 else actual l') n)))"
  by pat_completeness auto
termination
  by (relation "measure (\<lambda>(env, start, pm, fl, dir, line, col, count).
                 if dir > 0 then nat (int (length (lines env)) + 1 - line) else nat line)")
     (auto simp: slot_def split: if_splits)

declare paren_scan.simps [simp del]

text \<open>
  \<^verbatim>\<open>find_matching_paren(&line, &col, in_col)\<close>: \<open>None\<close> where the C function leaves its
  outputs untouched.
\<close>

definition find_matching_paren :: "buffer_t \<Rightarrow> int \<Rightarrow> fault + (int \<times> int) option" where
  "find_matching_paren env in_col =
     rbind (slot env (line_no env - 1)) (\<lambda>l.
       if col_no env - in_col + 1 > actual l then Inr None
       else
         rbind (cell_at l (col_no env - in_col)) (\<lambda>c.
           case paren_lookup (uint (codepoint c)) 0 of
             None \<Rightarrow> Inr None
           | Some (dir, pm) \<Rightarrow>
               paren_scan env (uint (codepoint c)) pm (and (flags c) 0xF) dir
                 (line_no env) (col_no env - in_col + 1) 0))"

section \<open>The paren matcher in the words of the specification\<close>

text \<open>
  The pair table, the direction a bracket implies (\<open>True\<close> is forwards) and its
  partner.
\<close>

definition bracket_pairs :: "(int \<times> int) list" where
  "bracket_pairs = [(0x28, 0x29), (0x5B, 0x5D), (0x7B, 0x7D), (0x3C, 0x3E)]"

definition bracket_partner :: "int \<Rightarrow> (bool \<times> int) option" where
  "bracket_partner b =
     (case map_of bracket_pairs b of
        Some close \<Rightarrow> Some (True, close)
      | None \<Rightarrow>
          (case map_of (map (\<lambda>(opn, close). (close, opn)) bracket_pairs) b of
             Some opn \<Rightarrow> Some (False, opn)
           | None \<Rightarrow> None))"

text \<open>
  The cells in the order of the scan, each with its position (line, column, both from 1):
  from the starting column to the end of its line and then the later lines, or to the
  start of its line and then the earlier lines from their ends.
\<close>

definition line_span :: "buffer_t \<Rightarrow> int \<Rightarrow> int \<Rightarrow> int \<Rightarrow> ((int \<times> int) \<times> char_t) list" where
  "line_span env line lo hi =
     (case slot env (line - 1) of
        Inl e \<Rightarrow> []
      | Inr l \<Rightarrow> map (\<lambda>c. ((line, c), cells l ! nat (c - 1))) [lo .. hi])"

definition scan_order :: "buffer_t \<Rightarrow> bool \<Rightarrow> int \<Rightarrow> int \<Rightarrow> ((int \<times> int) \<times> char_t) list" where
  "scan_order env forwards line col =
     (if forwards
      then line_span env line col (line_len env line)
           @ concat (map (\<lambda>l. line_span env l 1 (line_len env l)) [line + 1 .. line_count env])
      else rev (line_span env line 1 col)
           @ concat (map (\<lambda>l. rev (line_span env l 1 (line_len env l))) (rev [1 .. line - 1])))"

text \<open>
  The counter: over the cells whose syntax class (the low nibble of the flags) is
  \<open>fl\<close>, it goes up on the bracket and down on its partner; the partner at which it
  reaches zero is the match. It is 1 on the starting bracket itself, the first cell of
  the scan, so it starts from 0 before it.
\<close>

fun count_brackets ::
  "int \<Rightarrow> int \<Rightarrow> 7 word \<Rightarrow> int \<Rightarrow> ((int \<times> int) \<times> char_t) list \<Rightarrow> (int \<times> int) option" where
  "count_brackets b partner fl n [] = None"
| "count_brackets b partner fl n ((pos, x) # xs) =
     (if and (flags x) 0xF \<noteq> fl then count_brackets b partner fl n xs
      else if uint (codepoint x) = b then count_brackets b partner fl (n + 1) xs
      else if uint (codepoint x) = partner
      then (if n - 1 = 0 then Some pos else count_brackets b partner fl (n - 1) xs)
      else count_brackets b partner fl n xs)"

text \<open>The value of the counter after a stretch of cells without a match.\<close>

fun final_count :: "int \<Rightarrow> int \<Rightarrow> 7 word \<Rightarrow> int \<Rightarrow> ((int \<times> int) \<times> char_t) list \<Rightarrow> int" where
  "final_count b partner fl n [] = n"
| "final_count b partner fl n ((pos, x) # xs) =
     (if and (flags x) 0xF \<noteq> fl then final_count b partner fl n xs
      else if uint (codepoint x) = b then final_count b partner fl (n + 1) xs
      else if uint (codepoint x) = partner then final_count b partner fl (n - 1) xs
      else final_count b partner fl n xs)"

definition matching_bracket :: "buffer_t \<Rightarrow> int \<Rightarrow> int \<Rightarrow> (int \<times> int) option" where
  "matching_bracket env line col =
     (case slot env (line - 1) of
        Inl e \<Rightarrow> None
      | Inr l \<Rightarrow>
          let x = cells l ! nat (col - 1) in
          (case bracket_partner (uint (codepoint x)) of
             None \<Rightarrow> None
           | Some (forwards, partner) \<Rightarrow>
               count_brackets (uint (codepoint x)) partner (and (flags x) 0xF) 0
                 (scan_order env forwards line col)))"

text \<open>
  The buffers the invariants of the specification describe: at least one line, every
  line up to \<open>line_count\<close> allocated, its live length within its cells.
\<close>

definition lines_ok :: "buffer_t \<Rightarrow> bool" where
  "lines_ok env =
     (1 \<le> line_count env \<and> line_count env \<le> int (length (lines env))
      \<and> list_all (\<lambda>s. case s of None \<Rightarrow> False
                              | Some l \<Rightarrow> 0 \<le> actual l \<and> actual l \<le> int (length (cells l)))
           (take (nat (line_count env)) (lines env)))"

section \<open>The journal\<close>

text \<open>
  \<^verbatim>\<open>HIST_APPEND\<close>: the records after the current one are freed and the new record
  becomes the last and the current one.
\<close>

definition HIST_APPEND :: "history_t \<Rightarrow> buffer_t \<Rightarrow> buffer_t" where
  "HIST_APPEND e env =
     (let kept = take (Suc (history env)) (journal env)
      in env\<lparr>journal := kept @ [(next_addr env, e)], history := length kept,
              next_addr := Suc (next_addr env)\<rparr>)"

text \<open>
  The guard every editing primitive puts before its record:
  \<^verbatim>\<open>if (!env->loading && global_config.history_enabled)\<close>.
\<close>

definition recording :: "global_config_t \<Rightarrow> buffer_t \<Rightarrow> bool" where
  "recording cfg env = (\<not> loading env \<and> history_enabled cfg)"

text \<open>The record \<^verbatim>\<open>env->history\<close> points to, and its address.\<close>

definition history_record :: "buffer_t \<Rightarrow> fault + history_t" where
  "history_record env =
     (if history env < length (journal env) then Inr (snd (journal env ! history env))
      else Inl BadPointer)"

definition history_addr :: "buffer_t \<Rightarrow> fault + nat" where
  "history_addr env =
     (if history env < length (journal env) then Inr (fst (journal env ! history env))
      else Inl BadPointer)"

definition set_history_break :: "global_config_t \<Rightarrow> buffer_t \<Rightarrow> fault + buffer_t" where
  "set_history_break cfg env =
     (if \<not> history_enabled cfg then Inr env
      else rbind (history_record env) (\<lambda>e.
        if e \<noteq> HISTORY_BREAK \<and> e \<noteq> HISTORY_SENTINEL then Inr (HIST_APPEND HISTORY_BREAK env)
        else Inr env))"

section \<open>Editing primitives\<close>

text \<open>
  \<^verbatim>\<open>realloc\<close> to \<open>n\<close> elements: the old elements are kept, the new ones hold no
  defined value (the model fills them with \<open>junk\<close>).
\<close>

definition realloc :: "'a \<Rightarrow> 'a list \<Rightarrow> int \<Rightarrow> 'a list" where
  "realloc junk a n = take (nat n) a @ replicate (nat n - length a) junk"

definition zero_cell :: char_t where
  "zero_cell = \<lparr>display_width = 0, flags = 0, codepoint = 0\<rparr>"

text \<open>The growth step of a line: capacity 8 from nothing, doubled otherwise.\<close>

definition grow_line :: "line_t \<Rightarrow> line_t" where
  "grow_line line =
     (let a = (if available line = 0 then 8 else available line * 2)
      in line\<lparr>available := a, cells := realloc zero_cell (cells line) a\<rparr>)"

text \<open>\<^verbatim>\<open>memmove\<close> and \<^verbatim>\<open>memcpy\<close> inside the cells of a line.\<close>

definition move_cells :: "line_t \<Rightarrow> int \<Rightarrow> int \<Rightarrow> int \<Rightarrow> fault + line_t" where
  "move_cells line dst src n =
     rbind (memmove (cells line) dst src n) (\<lambda>cs. Inr (line\<lparr>cells := cs\<rparr>))"

definition copy_cells :: "line_t \<Rightarrow> int \<Rightarrow> char_t list \<Rightarrow> int \<Rightarrow> fault + line_t" where
  "copy_cells line dst src n =
     (if 0 \<le> n \<and> 0 \<le> dst \<and> dst + n \<le> int (length (cells line)) \<and> n \<le> int (length src)
      then Inr (line\<lparr>cells := take (nat dst) (cells line) @ take (nat n) src
                                 @ drop (nat (dst + n)) (cells line)\<rparr>)
      else Inl OutOfBounds)"

text \<open>
  \<^verbatim>\<open>line_insert(env->lines[lineno], c, offset, lineno)\<close>, with the caller's store of
  the returned pointer into \<^verbatim>\<open>env->lines[lineno]\<close>.
\<close>

definition line_insert ::
  "global_config_t \<Rightarrow> lexer option \<Rightarrow> buffer_t \<Rightarrow> char_t \<Rightarrow> int \<Rightarrow> int \<Rightarrow> fault + buffer_t" where
  "line_insert cfg syn env c offs lineno =
     rbind (slot env lineno) (\<lambda>line.
       let env1 = (if recording cfg env
                   then HIST_APPEND (HISTORY_INSERT lineno offs (uint (codepoint c))) env else env);
           line1 = (if actual line = available line then grow_line line else line)
       in rbind (if offs < actual line1
                 then move_cells line1 (offs + 1) offs (actual line1 - offs) else Inr line1) (\<lambda>line2.
          rbind (set_cell line2 offs c) (\<lambda>line3.
            let line4 = line3\<lparr>actual := actual line3 + 1\<rparr> in
            if \<not> loading env
            then rbind (recalculate_tabs env (line4\<lparr>rev_status := 2\<rparr>)) (\<lambda>line5.
                 rbind (set_slot env1 lineno line5) (\<lambda>env2.
                   recalculate_syntax syn env2 lineno))
            else set_slot env1 lineno line4)))"

definition line_delete ::
  "global_config_t \<Rightarrow> lexer option \<Rightarrow> buffer_t \<Rightarrow> int \<Rightarrow> int \<Rightarrow> fault + buffer_t" where
  "line_delete cfg syn env offs lineno =
     (if offs = 0 then Inr env
      else
        rbind (slot env lineno) (\<lambda>line.
        rbind (if recording cfg env
               then rbind (cell_at line (offs - 1)) (\<lambda>old.
                      Inr (HIST_APPEND (HISTORY_DELETE lineno offs (uint (codepoint old))) env))
               else Inr env) (\<lambda>env1.
        rbind (if offs < actual line
               then move_cells line (offs - 1) offs (actual line - offs) else Inr line) (\<lambda>line2.
        rbind (recalculate_tabs env (line2\<lparr>actual := actual line2 - 1, rev_status := 2\<rparr>)) (\<lambda>line3.
        rbind (set_slot env1 lineno line3) (\<lambda>env2.
          recalculate_syntax syn env2 lineno))))))"

definition line_replace ::
  "global_config_t \<Rightarrow> lexer option \<Rightarrow> buffer_t \<Rightarrow> char_t \<Rightarrow> int \<Rightarrow> int \<Rightarrow> fault + buffer_t" where
  "line_replace cfg syn env c offs lineno =
     rbind (slot env lineno) (\<lambda>line.
     rbind (if recording cfg env
            then rbind (cell_at line offs) (\<lambda>old.
                   Inr (HIST_APPEND (HISTORY_REPLACE lineno offs (uint (codepoint c))
                                       (uint (codepoint old))) env))
            else Inr env) (\<lambda>env1.
     rbind (set_cell line offs c) (\<lambda>line1.
       if \<not> loading env
       then rbind (recalculate_tabs env (line1\<lparr>rev_status := 2\<rparr>)) (\<lambda>line2.
            rbind (set_slot env1 lineno line2) (\<lambda>env2.
              recalculate_syntax syn env2 lineno))
       else set_slot env1 lineno line1)))"

text \<open>
  \<^verbatim>\<open>env->lines[i] = p\<close> on the slot array, and the doubling of the slot array that
  \<^verbatim>\<open>add_line\<close> and \<^verbatim>\<open>split_line\<close> do when it is full.
\<close>

definition store_slot :: "line_t option list \<Rightarrow> int \<Rightarrow> line_t option \<Rightarrow> fault + line_t option list" where
  "store_slot ls i p =
     (if 0 \<le> i \<and> i < int (length ls) then Inr (ls[nat i := p]) else Inl OutOfBounds)"

definition grow_lines :: "buffer_t \<Rightarrow> buffer_t" where
  "grow_lines env =
     (if line_count env = line_avail env
      then env\<lparr>line_avail := line_avail env * 2,
               lines := realloc None (lines env) (line_avail env * 2)\<rparr>
      else env)"

text \<open>
  The loop of \<^verbatim>\<open>remove_line\<close> for a buffer of one line: the line is emptied by
  deleting its last cell until none is left. Each pass shortens the line by one, so
  the first argument, the length at the start, bounds the passes.
\<close>

fun remove_line_clear ::
  "nat \<Rightarrow> global_config_t \<Rightarrow> lexer option \<Rightarrow> buffer_t \<Rightarrow> int \<Rightarrow> fault + buffer_t" where
  "remove_line_clear 0 cfg syn env offs =
     (case slot env offs of
        Inl e \<Rightarrow> Inl e
      | Inr line \<Rightarrow> if actual line > 0 then Inl Diverges else Inr env)"
| "remove_line_clear (Suc n) cfg syn env offs =
     (case slot env offs of
        Inl e \<Rightarrow> Inl e
      | Inr line \<Rightarrow>
          if actual line > 0
          then (case line_delete cfg syn env (actual line) offs of
                  Inl e \<Rightarrow> Inl e
                | Inr env1 \<Rightarrow> remove_line_clear n cfg syn env1 offs)
          else Inr env)"

text \<open>
  \<^verbatim>\<open>remove_line(env->lines, offset)\<close> with the caller's \<^verbatim>\<open>env->lines = ...\<close>. The
  freed slot holds no valid pointer any more. The \<^verbatim>\<open>memmove\<close> has the length the
  source gives it, \<^verbatim>\<open>env->line_count - (offset - 1)\<close> slots.
\<close>

definition remove_line ::
  "global_config_t \<Rightarrow> lexer option \<Rightarrow> buffer_t \<Rightarrow> int \<Rightarrow> fault + buffer_t" where
  "remove_line cfg syn env offs =
     (if line_count env = 1
      then rbind (slot env offs) (\<lambda>line. remove_line_clear (nat (actual line)) cfg syn env offs)
      else
        rbind (if recording cfg env
               then rbind (slot env offs) (\<lambda>line.
                      Inr (HIST_APPEND (HISTORY_REMOVE_LINE offs line) env))
               else Inr env) (\<lambda>env1.
        rbind (store_slot (lines env) offs None) (\<lambda>ls1.
        rbind (if offs < line_count env - 1
               then rbind (memmove ls1 offs (offs + 1) (line_count env - (offs - 1))) (\<lambda>ls2.
                      store_slot ls2 (line_count env - 1) None)
               else Inr ls1) (\<lambda>ls3.
          Inr (env1\<lparr>lines := ls3, line_count := line_count env - 1\<rparr>)))))"

text \<open>A line as \<^verbatim>\<open>add_line\<close> allocates it: 32 zeroed cells.\<close>

definition fresh_line :: "int \<Rightarrow> line_t" where
  "fresh_line rs =
     \<lparr>available = 32, actual = 0, istate = 0, is_current = 0, rev_status = rs,
      cells = replicate 32 zero_cell\<rparr>"

definition add_line ::
  "global_config_t \<Rightarrow> lexer option \<Rightarrow> buffer_t \<Rightarrow> int \<Rightarrow> fault + buffer_t" where
  "add_line cfg syn env offs =
     (if offs > line_count env then Inr env
      else
        let env1 = grow_lines (if recording cfg env
                               then HIST_APPEND (HISTORY_ADD_LINE offs) env else env)
        in rbind (if offs < line_count env
                  then memmove (lines env1) (offs + 1) offs (line_count env - offs)
                  else Inr (lines env1)) (\<lambda>ls2.
           rbind (store_slot ls2 offs (Some (fresh_line (if loading env then 0 else 2)))) (\<lambda>ls3.
             let env2 = env1\<lparr>lines := ls3, line_count := line_count env + 1\<rparr>
             in if offs > 0 \<and> \<not> loading env then recalculate_syntax syn env2 (offs - 1)
                else Inr env2)))"

definition replace_line ::
  "global_config_t \<Rightarrow> lexer option \<Rightarrow> buffer_t \<Rightarrow> int \<Rightarrow> line_t \<Rightarrow> fault + buffer_t" where
  "replace_line cfg syn env offs replacement =
     rbind (slot env offs) (\<lambda>line.
       let env1 = (if recording cfg env
                   then HIST_APPEND (HISTORY_REPLACE_LINE offs replacement line) env else env);
           line1 = (if available line < actual replacement
                    then line\<lparr>available := available replacement,
                              cells := realloc zero_cell (cells line) (available replacement)\<rparr>
                    else line)
       in rbind (copy_cells (line1\<lparr>actual := actual replacement\<rparr>) 0
                   (cells replacement) (actual replacement)) (\<lambda>line2.
            if \<not> loading env
            then rbind (set_slot env1 offs (line2\<lparr>rev_status := 2\<rparr>)) (\<lambda>env2.
                   recalculate_syntax syn env2 offs)
            else set_slot env1 offs line2))"

text \<open>
  The \<^verbatim>\<open>while\<close> loop of \<^verbatim>\<open>merge_lines\<close> that grows the first line until both fit.
  A negative capacity would double for ever.
\<close>

function grow_to :: "line_t \<Rightarrow> int \<Rightarrow> fault + line_t" where
  "grow_to line need =
     (if available line < need
      then (if available line < 0 then Inl Diverges else grow_to (grow_line line) need)
      else Inr line)"
  by pat_completeness auto
termination
  by (relation "measure (\<lambda>(line, need). nat (need - available line))")
     (auto simp: grow_line_def Let_def)

declare grow_to.simps [simp del]

definition merge_lines ::
  "global_config_t \<Rightarrow> lexer option \<Rightarrow> buffer_t \<Rightarrow> int \<Rightarrow> fault + buffer_t" where
  "merge_lines cfg syn env lineb =
     (let linea = lineb - 1 in
      rbind (slot env linea) (\<lambda>la.
        let env1 = (if recording cfg env
                    then HIST_APPEND (HISTORY_MERGE_LINES lineb (actual la)) env else env)
        in
      rbind (slot env lineb) (\<lambda>lb.
      rbind (grow_to la (actual la + actual lb)) (\<lambda>la1.
      rbind (copy_cells la1 (actual la1) (cells lb) (actual lb)) (\<lambda>la2.
        let la3 = la2\<lparr>actual := actual la2 + actual lb\<rparr> in
      rbind (if \<not> loading env
             then rbind (recalculate_tabs env (la3\<lparr>rev_status := 2\<rparr>)) (\<lambda>la4.
                  rbind (set_slot env1 linea la4) (\<lambda>env2.
                    recalculate_syntax syn env2 linea))
             else set_slot env1 linea la3) (\<lambda>env3.
      rbind (store_slot (lines env3) lineb None) (\<lambda>ls1.
      rbind (if lineb < line_count env3
             then rbind (memmove ls1 lineb (lineb + 1) (line_count env3 - (lineb - 1))) (\<lambda>ls2.
                    store_slot ls2 (line_count env3 - 1) None)
             else Inr ls1) (\<lambda>ls3.
        Inr (env3\<lparr>lines := ls3, line_count := line_count env3 - 1\<rparr>)))))))))"

text \<open>
  The capacity \<^verbatim>\<open>split_line\<close> computes for the new line from the number of cells it
  takes over (decrement, smear the bits to the right, increment).
\<close>

definition round_up_pow2 :: "int \<Rightarrow> int" where
  "round_up_pow2 remaining =
     (let v = remaining - 1;
          v = or v (drop_bit 1 v);
          v = or v (drop_bit 2 v);
          v = or v (drop_bit 4 v);
          v = or v (drop_bit 8 v);
          v = or v (drop_bit 16 v)
      in v + 1)"

text \<open>
  \<^verbatim>\<open>split_line\<close> works on its argument \<^verbatim>\<open>lines\<close>, and only its caller stores the
  result in \<^verbatim>\<open>env->lines\<close>. When it had to \<^verbatim>\<open>realloc\<close> the slot array,
  \<^verbatim>\<open>env->lines\<close> still points to the old block, which is freed, during its two calls of
  \<^verbatim>\<open>recalculate_syntax\<close>. Such a call works on the line it is given; it goes through
  \<^verbatim>\<open>env->lines\<close> when the lexer has returned and a next line exists, and that is then
  a use of the freed block. The lexer is given no earlier slots.
\<close>

definition recalculate_syntax_stale ::
  "lexer option \<Rightarrow> buffer_t \<Rightarrow> line_t \<Rightarrow> int \<Rightarrow> fault + line_t" where
  "recalculate_syntax_stale syn env line lno =
     (if int (length (cells line)) < actual line then Inl OutOfBounds
      else
        (case syn of
           None \<Rightarrow> Inr (clear_flags line)
         | Some calc \<Rightarrow>
             (case lex_loop calc [] (clear_flags line) lno (istate line) 0 of
                None \<Rightarrow> Inl Diverges
              | Some (line', st) \<Rightarrow>
                  if lno + 1 < line_count env then Inl BadPointer else Inr line')))"

text \<open>
  \<^verbatim>\<open>split_line(env->lines, line, split)\<close> with the caller's \<^verbatim>\<open>env->lines = ...\<close>.
  The two syntax recomputes run before \<^verbatim>\<open>line_count\<close> is incremented, and on the
  old slot array when a new one was allocated.
\<close>

definition split_line ::
  "global_config_t \<Rightarrow> lexer option \<Rightarrow> buffer_t \<Rightarrow> int \<Rightarrow> int \<Rightarrow> fault + buffer_t" where
  "split_line cfg syn env line split =
     (if split = 0 then add_line cfg syn env line
      else
        let env1 = grow_lines (if recording cfg env
                               then HIST_APPEND (HISTORY_SPLIT_LINE line split) env else env)
        in
        rbind (if line < line_count env
               then memmove (lines env1) (line + 2) (line + 1) (line_count env - line)
               else Inr (lines env1)) (\<lambda>ls2.
        rbind (slot (env1\<lparr>lines := ls2\<rparr>) line) (\<lambda>l.
          let remaining = actual l - split;
              v = round_up_pow2 remaining;
              nl = \<lparr>available = v, actual = remaining, istate = 0, is_current = 0,
                    rev_status = 0, cells = replicate (nat v) zero_cell\<rparr>
          in
        rbind (if 0 \<le> split \<and> 0 \<le> remaining \<and> split + remaining \<le> int (length (cells l))
               then copy_cells nl 0 (drop (nat split) (cells l)) remaining
               else Inl OutOfBounds) (\<lambda>nl1.
          let l1 = l\<lparr>actual := split\<rparr> in
        rbind (store_slot ls2 (line + 1) (Some nl1)) (\<lambda>ls3.
        rbind (if \<not> loading env
               then rbind (recalculate_tabs env (l1\<lparr>rev_status := 2\<rparr>)) (\<lambda>l2.
                    rbind (recalculate_tabs env (nl1\<lparr>rev_status := 2\<rparr>)) (\<lambda>nl2.
                    if line_count env = line_avail env
                    then rbind (recalculate_syntax_stale syn env l2 line) (\<lambda>l3.
                         rbind (recalculate_syntax_stale syn env nl2 (line + 1)) (\<lambda>nl3.
                         rbind (store_slot ls3 line (Some l3)) (\<lambda>ls4.
                         rbind (store_slot ls4 (line + 1) (Some nl3)) (\<lambda>ls5.
                           Inr (env1\<lparr>lines := ls5\<rparr>)))))
                    else
                    rbind (store_slot ls3 line (Some l2)) (\<lambda>ls4.
                    rbind (store_slot ls4 (line + 1) (Some nl2)) (\<lambda>ls5.
                    rbind (recalculate_syntax syn (env1\<lparr>lines := ls5\<rparr>) line) (\<lambda>env2.
                      recalculate_syntax syn env2 (line + 1))))))
               else rbind (store_slot ls3 line (Some l1)) (\<lambda>ls4. Inr (env1\<lparr>lines := ls4\<rparr>))) (\<lambda>env3.
          Inr (env3\<lparr>line_count := line_count env3 + 1\<rparr>)))))))"

section \<open>Undo and redo\<close>

text \<open>
  \<^verbatim>\<open>codepoint_width\<close>. \<open>wcw\<close> is the C library's \<^verbatim>\<open>wcwidth\<close>, a parameter of the
  model.
\<close>

definition codepoint_width :: "global_config_t \<Rightarrow> (int \<Rightarrow> int) \<Rightarrow> int \<Rightarrow> int" where
  "codepoint_width cfg wcw cp =
     (if cp = 9 then 1
      else if cp < 32 then 2
      else if cp = 0x7F then 2
      else if cp > 0x7F \<and> cp < 0xA0 then 4
      else if cp = 0xA0 then 1
      else if cp > 256
      then (if can_unicode cfg \<and> wcw cp \<ge> 1 then wcw cp
            else if cp < 0x10000 then 8 else 10)
      else 1)"

text \<open>The cell \<^verbatim>\<open>{codepoint_width(cp), 0, cp}\<close> that undo and redo build from a record.\<close>

definition cell_of :: "global_config_t \<Rightarrow> (int \<Rightarrow> int) \<Rightarrow> int \<Rightarrow> char_t" where
  "cell_of cfg wcw cp =
     \<lparr>display_width = word_of_int (codepoint_width cfg wcw cp), flags = 0,
      codepoint = word_of_int cp\<rparr>"

text \<open>
  \<^verbatim>\<open>place_cursor_actual\<close>: the two clamps, and the walk over the cells left of the
  cursor that computes the screen column. Scrolling the viewport, the paren highlight
  and the terminal are not modelled.
\<close>

definition place_cursor_actual :: "buffer_t \<Rightarrow> fault + buffer_t" where
  "place_cursor_actual env =
     (let env1 = (if line_no env < 1 then env\<lparr>line_no := 1\<rparr> else env);
          env2 = (if col_no env1 < 1 then env1\<lparr>col_no := 1\<rparr> else env1)
      in rbind (slot env2 (line_no env2 - 1)) (\<lambda>line.
           if int (length (cells line)) < col_no env2 - 1 then Inl OutOfBounds else Inr env2))"

text \<open>The body of the \<^verbatim>\<open>switch\<close> of \<^verbatim>\<open>undo_history\<close> for one record.\<close>

fun undo_record ::
  "global_config_t \<Rightarrow> (int \<Rightarrow> int) \<Rightarrow> lexer option \<Rightarrow> buffer_t \<Rightarrow> history_t \<Rightarrow> fault + buffer_t" where
  "undo_record cfg wcw syn env (HISTORY_INSERT lineno offs cp) =
     rbind (line_delete cfg syn env (offs + 1) lineno) (\<lambda>env1.
       Inr (env1\<lparr>line_no := lineno + 1, col_no := offs + 1\<rparr>))"
| "undo_record cfg wcw syn env (HISTORY_DELETE lineno offs old) =
     rbind (line_insert cfg syn env (cell_of cfg wcw old) (offs - 1) lineno) (\<lambda>env1.
       Inr (env1\<lparr>line_no := lineno + 1, col_no := offs + 2\<rparr>))"
| "undo_record cfg wcw syn env (HISTORY_REPLACE lineno offs cp old) =
     rbind (line_replace cfg syn env (cell_of cfg wcw old) offs lineno) (\<lambda>env1.
       Inr (env1\<lparr>line_no := lineno + 1, col_no := offs + 1\<rparr>))"
| "undo_record cfg wcw syn env (HISTORY_REMOVE_LINE lineno old) =
     rbind (add_line cfg syn env lineno) (\<lambda>env1.
     rbind (replace_line cfg syn env1 lineno old) (\<lambda>env2.
       Inr (env2\<lparr>line_no := lineno + 2, col_no := 1\<rparr>)))"
| "undo_record cfg wcw syn env (HISTORY_ADD_LINE lineno) =
     rbind (remove_line cfg syn env lineno) (\<lambda>env1.
       Inr (env1\<lparr>line_no := lineno + 1, col_no := 1\<rparr>))"
| "undo_record cfg wcw syn env (HISTORY_REPLACE_LINE lineno new old) =
     rbind (replace_line cfg syn env lineno old) (\<lambda>env1.
       Inr (env1\<lparr>line_no := lineno + 1, col_no := 1\<rparr>))"
| "undo_record cfg wcw syn env (HISTORY_SPLIT_LINE lineno split) =
     rbind (merge_lines cfg syn env (lineno + 1)) (\<lambda>env1.
       Inr (env1\<lparr>line_no := lineno + 2, col_no := 1\<rparr>))"
| "undo_record cfg wcw syn env (HISTORY_MERGE_LINES lineno split) =
     rbind (split_line cfg syn env (lineno - 1) split) (\<lambda>env1.
       Inr (env1\<lparr>line_no := lineno, col_no := 1\<rparr>))"
| "undo_record cfg wcw syn env HISTORY_BREAK = Inr env"
| "undo_record cfg wcw syn env HISTORY_SENTINEL = Inr env"

text \<open>
  The \<^verbatim>\<open>do ... while\<close> loop of \<^verbatim>\<open>undo_history\<close>. The last argument is the chain
  from the record \<open>e\<close> backwards (\<open>e\<close> first, then \<^verbatim>\<open>e->previous\<close>, and so on); \<open>h\<close>
  is the position of \<open>e\<close>. Before the oldest record there is no record:
  \<^verbatim>\<open>e->previous\<close> is NULL there and reading its type is a fault.
\<close>

fun undo_loop ::
  "global_config_t \<Rightarrow> (int \<Rightarrow> int) \<Rightarrow> lexer option \<Rightarrow> buffer_t \<Rightarrow> nat \<Rightarrow> history_t list \<Rightarrow> fault + buffer_t" where
  "undo_loop cfg wcw syn env h [] = Inl BadPointer"
| "undo_loop cfg wcw syn env h (e # older) =
     (if e = HISTORY_SENTINEL then Inr env
      else (case undo_record cfg wcw syn env e of
              Inl f \<Rightarrow> Inl f
            | Inr env1 \<Rightarrow>
                (case older of
                   [] \<Rightarrow> Inl BadPointer
                 | e' # _ \<Rightarrow>
                     let env2 = env1\<lparr>history := h - 1\<rparr>
                     in if e' \<noteq> HISTORY_BREAK then undo_loop cfg wcw syn env2 (h - 1) older
                        else Inr env2)))"

text \<open>
  The two loops over all lines that end \<^verbatim>\<open>undo_history\<close> and \<^verbatim>\<open>redo_history\<close>;
  \<open>is\<close> is the list of the line indices still to do.
\<close>

fun reset_istates :: "buffer_t \<Rightarrow> nat list \<Rightarrow> fault + buffer_t" where
  "reset_istates env [] = Inr env"
| "reset_istates env (i # is) =
     (case slot env (int i) of
        Inl f \<Rightarrow> Inl f
      | Inr line \<Rightarrow>
          (case recalculate_tabs env (line\<lparr>istate := 0\<rparr>) of
             Inl f \<Rightarrow> Inl f
           | Inr line1 \<Rightarrow>
               reset_istates (env\<lparr>lines := (lines env)[i := Some line1]\<rparr>) is))"

fun recalculate_all :: "lexer option \<Rightarrow> buffer_t \<Rightarrow> nat list \<Rightarrow> fault + buffer_t" where
  "recalculate_all syn env [] = Inr env"
| "recalculate_all syn env (i # is) =
     (case recalculate_syntax syn env (int i) of
        Inl f \<Rightarrow> Inl f
      | Inr env1 \<Rightarrow> recalculate_all syn env1 is)"

text \<open>What \<^verbatim>\<open>undo_history\<close> and \<^verbatim>\<open>redo_history\<close> do after their loop.\<close>

definition finish_replay :: "lexer option \<Rightarrow> buffer_t \<Rightarrow> fault + buffer_t" where
  "finish_replay syn env =
     (let env1 = (if line_no env > line_count env then env\<lparr>line_no := line_count env\<rparr> else env)
      in rbind (slot env1 (line_no env1 - 1)) (\<lambda>line.
           let env2 = (if col_no env1 > actual line then env1\<lparr>col_no := actual line\<rparr> else env1)
           in rbind (history_addr env2) (\<lambda>a.
                let env3 = env2\<lparr>modified := (a \<noteq> last_save_history env2), loading := False\<rparr>
                in rbind (reset_istates env3 [0 ..< nat (line_count env3)]) (\<lambda>env4.
                   rbind (recalculate_all syn env4 [0 ..< nat (line_count env4)]) (\<lambda>env5.
                     place_cursor_actual env5)))))"

definition undo_history ::
  "global_config_t \<Rightarrow> (int \<Rightarrow> int) \<Rightarrow> lexer option \<Rightarrow> buffer_t \<Rightarrow> fault + buffer_t" where
  "undo_history cfg wcw syn env =
     (if \<not> history_enabled cfg then Inr env
      else
        rbind (history_record env) (\<lambda>e.
          if e = HISTORY_SENTINEL then Inr (env\<lparr>loading := False\<rparr>)
          else rbind (undo_loop cfg wcw syn (env\<lparr>loading := True\<rparr>) (history env)
                        (rev (map snd (take (Suc (history env)) (journal env)))))
                 (finish_replay syn)))"

text \<open>The body of the \<^verbatim>\<open>switch\<close> of \<^verbatim>\<open>redo_history\<close> for one record.\<close>

fun redo_record ::
  "global_config_t \<Rightarrow> (int \<Rightarrow> int) \<Rightarrow> lexer option \<Rightarrow> buffer_t \<Rightarrow> history_t \<Rightarrow> fault + buffer_t" where
  "redo_record cfg wcw syn env (HISTORY_INSERT lineno offs cp) =
     rbind (line_insert cfg syn env (cell_of cfg wcw cp) offs lineno) (\<lambda>env1.
       Inr (env1\<lparr>line_no := lineno + 1, col_no := offs + 2\<rparr>))"
| "redo_record cfg wcw syn env (HISTORY_DELETE lineno offs old) =
     rbind (line_delete cfg syn env offs lineno) (\<lambda>env1.
       Inr (env1\<lparr>line_no := lineno + 1, col_no := offs + 1\<rparr>))"
| "redo_record cfg wcw syn env (HISTORY_REPLACE lineno offs cp old) =
     rbind (line_replace cfg syn env (cell_of cfg wcw cp) offs lineno) (\<lambda>env1.
       Inr (env1\<lparr>line_no := lineno + 1, col_no := offs + 2\<rparr>))"
| "redo_record cfg wcw syn env (HISTORY_ADD_LINE lineno) =
     rbind (add_line cfg syn env lineno) (\<lambda>env1.
       Inr (env1\<lparr>line_no := lineno + 2, col_no := 1\<rparr>))"
| "redo_record cfg wcw syn env (HISTORY_REMOVE_LINE lineno old) =
     rbind (remove_line cfg syn env lineno) (\<lambda>env1.
       Inr (env1\<lparr>line_no := lineno + 1, col_no := 1\<rparr>))"
| "redo_record cfg wcw syn env (HISTORY_REPLACE_LINE lineno new old) =
     rbind (replace_line cfg syn env lineno new) (\<lambda>env1.
       Inr (env1\<lparr>line_no := lineno + 2, col_no := 1\<rparr>))"
| "redo_record cfg wcw syn env (HISTORY_MERGE_LINES lineno split) =
     rbind (merge_lines cfg syn env lineno) (\<lambda>env1.
       Inr (env1\<lparr>line_no := lineno + 1, col_no := 1\<rparr>))"
| "redo_record cfg wcw syn env (HISTORY_SPLIT_LINE lineno split) =
     rbind (split_line cfg syn env lineno split) (\<lambda>env1.
       Inr (env1\<lparr>line_no := lineno + 2, col_no := 1\<rparr>))"
| "redo_record cfg wcw syn env HISTORY_BREAK = Inr env"
| "redo_record cfg wcw syn env HISTORY_SENTINEL = Inr env"

text \<open>
  The \<^verbatim>\<open>while (e)\<close> loop of \<^verbatim>\<open>redo_history\<close>: the last argument is the chain from
  \<open>e\<close> forwards, \<open>h\<close> the position of \<open>e\<close>.
\<close>

fun redo_loop ::
  "global_config_t \<Rightarrow> (int \<Rightarrow> int) \<Rightarrow> lexer option \<Rightarrow> buffer_t \<Rightarrow> nat \<Rightarrow> history_t list \<Rightarrow> fault + buffer_t" where
  "redo_loop cfg wcw syn env h [] = Inr env"
| "redo_loop cfg wcw syn env h (e # after) =
     (if e = HISTORY_BREAK then Inr (env\<lparr>history := h\<rparr>)
      else (case redo_record cfg wcw syn env e of
              Inl f \<Rightarrow> Inl f
            | Inr env1 \<Rightarrow> redo_loop cfg wcw syn (env1\<lparr>history := h\<rparr>) (Suc h) after))"

definition redo_history ::
  "global_config_t \<Rightarrow> (int \<Rightarrow> int) \<Rightarrow> lexer option \<Rightarrow> buffer_t \<Rightarrow> fault + buffer_t" where
  "redo_history cfg wcw syn env =
     (if \<not> history_enabled cfg then Inr env
      else if length (journal env) \<le> history env then Inl BadPointer
      else if length (journal env) = Suc (history env) then Inr (env\<lparr>loading := False\<rparr>)
      else rbind (redo_loop cfg wcw syn (env\<lparr>loading := True\<rparr>) (Suc (history env))
                    (map snd (drop (Suc (history env)) (journal env))))
             (finish_replay syn))"

section \<open>Operations of the editing modes\<close>

text \<open>\<^verbatim>\<open>set_modified\<close> (the redraws are not modelled).\<close>

definition set_modified :: "buffer_t \<Rightarrow> buffer_t" where
  "set_modified env = (if modified env then env else env\<lparr>modified := True\<rparr>)"

definition insert_char ::
  "global_config_t \<Rightarrow> (int \<Rightarrow> int) \<Rightarrow> lexer option \<Rightarrow> buffer_t \<Rightarrow> 32 word \<Rightarrow> fault + buffer_t" where
  "insert_char cfg wcw syn env c =
     (if c = 0 then Inr env
      else
        rbind (line_insert cfg syn env
                 \<lparr>display_width = word_of_int (codepoint_width cfg wcw (sint c)), flags = 0,
                  codepoint = ucast c\<rparr>
                 (col_no env - 1) (line_no env - 1)) (\<lambda>env1.
          Inr (set_modified (env1\<lparr>col_no := col_no env1 + 1\<rparr>))))"

definition replace_char ::
  "global_config_t \<Rightarrow> (int \<Rightarrow> int) \<Rightarrow> lexer option \<Rightarrow> buffer_t \<Rightarrow> 32 word \<Rightarrow> fault + buffer_t" where
  "replace_char cfg wcw syn env c =
     rbind (slot env (line_no env - 1)) (\<lambda>line.
       if col_no env < 1 \<or> col_no env > actual line then Inr env
       else
         rbind (line_replace cfg syn env
                  \<lparr>display_width = word_of_int (codepoint_width cfg wcw (sint c)), flags = 0,
                   codepoint = ucast c\<rparr>
                  (col_no env - 1) (line_no env - 1)) (\<lambda>env1.
           Inr (set_modified env1)))"

definition delete_at_cursor ::
  "global_config_t \<Rightarrow> lexer option \<Rightarrow> buffer_t \<Rightarrow> fault + buffer_t" where
  "delete_at_cursor cfg syn env =
     (if col_no env > 1
      then rbind (line_delete cfg syn env (col_no env - 1) (line_no env - 1)) (\<lambda>env1.
             let env2 = env1\<lparr>col_no := col_no env1 - 1\<rparr>;
                 env3 = (if coffset env2 > 0 then env2\<lparr>coffset := coffset env2 - 1\<rparr> else env2)
             in place_cursor_actual (set_modified env3))
      else if line_no env > 1
      then rbind (slot env (line_no env - 2)) (\<lambda>above.
           rbind (merge_lines cfg syn env (line_no env - 1)) (\<lambda>env1.
           rbind (set_preferred_column
                    (env1\<lparr>line_no := line_no env1 - 1, col_no := actual above + 1\<rparr>)) (\<lambda>env2.
             place_cursor_actual (set_modified env2))))
      else Inr env)"

text \<open>\<^verbatim>\<open>leave_insert\<close>, which ends Insert and Replace mode.\<close>

definition leave_insert :: "global_config_t \<Rightarrow> buffer_t \<Rightarrow> fault + buffer_t" where
  "leave_insert cfg env =
     rbind (slot env (line_no env - 1)) (\<lambda>line.
     rbind (if col_no env > actual line
            then set_preferred_column
                   (env\<lparr>col_no := (if actual line = 0 then 1 else actual line)\<rparr>)
            else Inr env) (\<lambda>env1.
     rbind (set_history_break cfg env1) (\<lambda>env2.
       Inr (env2\<lparr>mode := MODE_NORMAL\<rparr>))))"

text \<open>
  \<^verbatim>\<open>write_file\<close>; \<open>opened\<close> tells whether the file could be opened for writing. What
  is written to the file is not modelled.
\<close>

definition write_file :: "bool \<Rightarrow> buffer_t \<Rightarrow> fault + buffer_t" where
  "write_file opened env =
     (if \<not> opened then Inr env
      else if \<not> list_all (\<lambda>l. l \<noteq> None) (take (nat (line_count env)) (lines env))
              \<or> int (length (lines env)) < line_count env
      then Inl BadPointer
      else
        rbind (history_addr env) (\<lambda>a.
          Inr (env\<lparr>lines := map (map_option (\<lambda>l. l\<lparr>rev_status := 0\<rparr>))
                                (take (nat (line_count env)) (lines env))
                              @ drop (nat (line_count env)) (lines env),
                    modified := False, last_save_history := a\<rparr>)))"

text \<open>The \<^verbatim>\<open>default\<close> case of \<^verbatim>\<open>replace_mode\<close>: a character typed in Replace mode.\<close>

definition replace_mode_char ::
  "global_config_t \<Rightarrow> (int \<Rightarrow> int) \<Rightarrow> lexer option \<Rightarrow> buffer_t \<Rightarrow> 32 word \<Rightarrow> fault + buffer_t" where
  "replace_mode_char cfg wcw syn env c =
     rbind (slot env (line_no env - 1)) (\<lambda>line.
     rbind (if col_no env \<le> actual line
            then rbind (replace_char cfg wcw syn env c) (\<lambda>env1.
                   Inr (env1\<lparr>col_no := col_no env1 + 1\<rparr>))
            else insert_char cfg wcw syn env c)
       place_cursor_actual)"

text \<open>The cursor keys within a line.\<close>

definition cursor_left :: "buffer_t \<Rightarrow> fault + buffer_t" where
  "cursor_left env =
     rbind (if col_no env > 1 then place_cursor_actual (env\<lparr>col_no := col_no env - 1\<rparr>)
            else Inr env)
       set_preferred_column"

definition cursor_right :: "buffer_t \<Rightarrow> fault + buffer_t" where
  "cursor_right env =
     rbind (slot env (line_no env - 1)) (\<lambda>line.
     rbind (if col_no env < actual line + (if mode env = MODE_INSERT then 1 else 0)
            then place_cursor_actual (env\<lparr>col_no := col_no env + 1\<rparr>)
            else Inr env)
       set_preferred_column)"

definition cursor_home :: "buffer_t \<Rightarrow> fault + buffer_t" where
  "cursor_home env = rbind (set_preferred_column (env\<lparr>col_no := 1\<rparr>)) place_cursor_actual"

definition cursor_end :: "buffer_t \<Rightarrow> fault + buffer_t" where
  "cursor_end env =
     rbind (slot env (line_no env - 1)) (\<lambda>line.
     rbind (set_preferred_column
              (env\<lparr>col_no := actual line + (if mode env = MODE_INSERT then 1 else 0)\<rparr>))
       place_cursor_actual)"

section \<open>What the properties speak about\<close>

text \<open>
  A line and a buffer without what the syntax engine writes (the flags of the cells and
  the incoming state of the lines): two buffers with the same \<open>strip\<close> differ in
  syntax painting only.
\<close>

definition strip_line :: "line_t \<Rightarrow> line_t" where
  "strip_line l = l\<lparr>istate := 0, cells := map (\<lambda>c. c\<lparr>flags := 0\<rparr>) (cells l)\<rparr>"

definition strip :: "buffer_t \<Rightarrow> buffer_t" where
  "strip env = env\<lparr>lines := map (map_option strip_line) (lines env)\<rparr>"

text \<open>
  The stored incoming state of line \<open>j + 1\<close> is the state the lexer produces for line
  \<open>j\<close>.
\<close>

definition istate_follows :: "lexer \<Rightarrow> buffer_t \<Rightarrow> int \<Rightarrow> bool" where
  "istate_follows calc env j =
     (case slot env (j + 1) of
        Inl e \<Rightarrow> False
      | Inr nxt \<Rightarrow> lexer_exit calc env j = Some (istate nxt))"

text \<open>The incoming state stored for a line (a fault when there is no such line).\<close>

definition line_istate :: "buffer_t \<Rightarrow> int \<Rightarrow> fault + int" where
  "line_istate env j = map_sum id istate (slot env j)"

text \<open>
  The recompute of line \<open>k\<close> went through the lines \<open>k\<close> to \<open>m\<close> and touched nothing
  else, from the buffer \<open>env\<close> to the buffer \<open>env'\<close>.
\<close>

definition cascade_to :: "lexer \<Rightarrow> buffer_t \<Rightarrow> buffer_t \<Rightarrow> int \<Rightarrow> int \<Rightarrow> bool" where
  "cascade_to calc env env' k m =
     (k \<le> m
      \<and> (\<forall>j. k \<le> j \<and> j \<le> m \<and> j + 1 < line_count env \<longrightarrow> istate_follows calc env' j)
      \<and> (\<forall>j. k \<le> j \<and> j < m \<longrightarrow> line_istate env' (j + 1) \<noteq> line_istate env (j + 1))
      \<and> (\<forall>i. 0 \<le> i \<and> (i < k \<or> m < i) \<longrightarrow> lines env' ! nat i = lines env ! nat i)
      \<and> length (lines env') = length (lines env))"

text \<open>
  The text of a buffer: the codepoints of the live cells of its \<open>line_count\<close> lines.
\<close>

definition buffer_text :: "buffer_t \<Rightarrow> 21 word list list" where
  "buffer_text env =
     map (\<lambda>s. case s of None \<Rightarrow> [] | Some l \<Rightarrow> line_text l) (take (nat (line_count env)) (lines env))"

text \<open>
  Invariants 1 and 2 of the specification, on the arrays of the model: the live length
  of a line is within its capacity, which is the number of its cells; a buffer has at
  least one line, its \<open>line_avail\<close> slots hold its \<open>line_count\<close> lines first.
\<close>

definition wf_line :: "line_t \<Rightarrow> bool" where
  "wf_line l = (0 \<le> actual l \<and> actual l \<le> available l \<and> int (length (cells l)) = available l)"

definition wf_buffer :: "buffer_t \<Rightarrow> bool" where
  "wf_buffer env =
     (1 \<le> line_count env \<and> line_count env \<le> line_avail env
      \<and> int (length (lines env)) = line_avail env
      \<and> list_all (\<lambda>s. case s of None \<Rightarrow> False | Some l \<Rightarrow> wf_line l)
           (take (nat (line_count env)) (lines env)))"

text \<open>
  What the syntax engine and the tab recompute leave alone in a line (capacity, live
  length, codepoints), and two buffers that differ at most in the rest of their lines.
\<close>

definition bare_line :: "line_t \<Rightarrow> int \<times> int \<times> 21 word list" where
  "bare_line l = (available l, actual l, map codepoint (cells l))"

definition same_text :: "buffer_t \<Rightarrow> buffer_t \<Rightarrow> bool" where
  "same_text e1 e2 =
     (e1\<lparr>lines := []\<rparr> = e2\<lparr>lines := []\<rparr>
      \<and> map (map_option bare_line) (lines e1) = map (map_option bare_line) (lines e2))"

text \<open>Two buffers that differ at most in their lines.\<close>

definition same_frame :: "buffer_t \<Rightarrow> buffer_t \<Rightarrow> bool" where
  "same_frame a b = (a\<lparr>lines := []\<rparr> = b\<lparr>lines := []\<rparr>)"

text \<open>
  The equivalence the specification states for the modified flag: it is set exactly
  when the current record of the journal is not the one of the last save.
\<close>

definition modified_tracks :: "buffer_t \<Rightarrow> bool" where
  "modified_tracks env = (modified env \<longleftrightarrow> history_addr env \<noteq> Inr (last_save_history env))"

section \<open>Buffers for the worked examples\<close>

text \<open>
  \<^verbatim>\<open>calloc\<close> gives zeroed cells; \<open>loaded_line\<close> is a line as \<^verbatim>\<open>setup_buffer\<close> or
  \<^verbatim>\<open>add_line\<close> allocates it (32 cells) after the given codepoints were inserted with
  display width 1.
\<close>

definition loaded_line :: "21 word list \<Rightarrow> line_t" where
  "loaded_line cps =
     \<lparr>available = 32, actual = int (length cps), istate = 0, is_current = 0, rev_status = 0,
      cells = map (\<lambda>c. \<lparr>display_width = 1, flags = 0, codepoint = c\<rparr>) cps
              @ replicate (32 - length cps) zero_cell\<rparr>"

text \<open>
  A buffer as \<^verbatim>\<open>setup_buffer\<close> leaves it (eight line slots, the journal holding the
  sentinel), with the given lines loaded and the cursor at 1:1.
\<close>

definition loaded_buffer :: "21 word list list \<Rightarrow> buffer_t" where
  "loaded_buffer ls =
     \<lparr>loading = False, modified = False, indent = False, mode = MODE_NORMAL, tabstop = 4,
      offset = 0, coffset = 0, line_no = 1, line_count = int (length ls), line_avail = 8,
      col_no = 1, preferred_column = 0, search = None,
      lines = map (\<lambda>l. Some (loaded_line l)) ls @ replicate (8 - length ls) None,
      journal = [(0, HISTORY_SENTINEL)], history = 0, last_save_history = 0, next_addr = 1\<rparr>"

text \<open>
  A \<^verbatim>\<open>tolower\<close> for the examples, that of the C locale: A..Z go to a..z and every
  other value is left as it is.
\<close>

definition c_tolower :: "int \<Rightarrow> int" where
  "c_tolower c = (if 65 \<le> c \<and> c \<le> 90 then c + 32 else c)"

text \<open>A \<^verbatim>\<open>wcwidth\<close> for the examples: every codepoint is one column wide.\<close>

definition wcwidth_1 :: "int \<Rightarrow> int" where
  "wcwidth_1 cp = 1"

text \<open>The options as \<^verbatim>\<open>global_config\<close> initialises them.\<close>

definition default_config :: global_config_t where
  "default_config = \<lparr>history_enabled = True, smart_case_opt = True, can_unicode = True\<rparr>"

text \<open>
  A small lexer for the examples, in the manner of the block comments of the C lexer:
  a slash opens a comment that runs to the next line with a star; state 1 is "inside
  a comment", flag 3 is \<^verbatim>\<open>FLAG_COMMENT\<close>. It returns 0 after each plain cell, so that
  the engine calls it again on the same line.
\<close>

definition comment_lexer :: lexer where
  "comment_lexer prev line lno st i =
     (let fl = map flags (live line) in
      if i = 0 \<and> st = 1
      then (if 0x2A \<in> set (line_text line) then 0 else 1, actual line, map (\<lambda>_. 3) fl)
      else if actual line \<le> i then (- 1, i, fl)
      else if codepoint (cells line ! nat i) = 0x2F
      then (1, actual line, take (nat i) fl @ replicate (length fl - nat i) 3)
      else (0, i + 1, fl))"

text \<open>
  The lines \<open>a/\<close>, \<open>b\<close>, \<open>c*\<close>, \<open>d\<close> with the stored incoming states 0, 0, 0
  and -1.
\<close>

definition comment_buffer :: buffer_t where
  "comment_buffer =
     (loaded_buffer [[0x61, 0x2F], [0x62], [0x63, 0x2A], [0x64]])
       \<lparr>lines := [Some (loaded_line [0x61, 0x2F]), Some (loaded_line [0x62]),
                  Some (loaded_line [0x63, 0x2A]), Some ((loaded_line [0x64])\<lparr>istate := - 1\<rparr>),
                  None, None, None, None]\<rparr>"

text \<open>
  A buffer of eight lines made by seven \<^verbatim>\<open>add_line\<close>
  calls at the end of a one-line buffer: the eight slots that \<^verbatim>\<open>setup_buffer\<close>
  allocates are all in use.
\<close>

definition eight_line_buffer :: "fault + buffer_t" where
  "eight_line_buffer =
     fold (\<lambda>i r. rbind r (\<lambda>e. add_line default_config None e i)) [1, 2, 3, 4, 5, 6, 7]
       (Inr (loaded_buffer [[0x61]]))"

section \<open>Properties of smart case\<close>






section \<open>Properties of the tab recompute\<close>

lemma recalculate_tabs_loop_length:
  "recalculate_tabs_loop ts j cs = Inr r \<Longrightarrow> length r = length cs"
  by (induction cs arbitrary: j r) (auto simp: Let_def split: if_splits sum.splits)

lemma recalculate_tabs_loop_idem:
  "recalculate_tabs_loop ts j cs = Inr r \<Longrightarrow> recalculate_tabs_loop ts j r = Inr r"
  by (induction cs arbitrary: j r) (auto simp: Let_def split: if_splits sum.splits)

text \<open>The recompute is idempotent, whatever the tabstop: a second pass changes nothing.\<close>

lemma recalculate_tabs_idempotent:
  assumes "recalculate_tabs env line = Inr l1"
  shows "recalculate_tabs env l1 = Inr l1"
proof (cases "loading env")
  case True
  with assms show ?thesis by (simp add: recalculate_tabs_def)
next
  case False
  with assms obtain r where
    len: "actual line \<le> int (length (cells line))" and
    r: "recalculate_tabs_loop (tabstop env) 0 (live line) = Inr r" and
    l1: "l1 = line\<lparr>cells := r @ drop (nat (actual line)) (cells line)\<rparr>"
    by (auto simp: recalculate_tabs_def split: if_splits sum.splits)
  have lr: "length r = nat (actual line)"
    using recalculate_tabs_loop_length [OF r] len by (simp add: live_def)
  have "live l1 = r" using lr by (simp add: l1 live_def)
  moreover have "drop (nat (actual l1)) (cells l1) = drop (nat (actual line)) (cells line)"
    using lr by (simp add: l1)
  moreover have "actual l1 \<le> int (length (cells l1))" using lr len by (simp add: l1)
  ultimately show ?thesis
    using False recalculate_tabs_loop_idem [OF r] by (simp add: recalculate_tabs_def l1)
qed

text \<open>
  C9. With tabstop 16 (which \<^verbatim>\<open>:tabstop\<close> accepts: it takes 1 to 31) the tab at
  display column 0 of the line \<open>\t a\<close> should receive width 16 - (0 mod 16) = 16; the
  4-bit field keeps 0.
\<close>

theorem recalculate_tabs_tabstop_16:
  "map_sum id (\<lambda>l. map display_width (live l))
     (recalculate_tabs ((loaded_buffer [])\<lparr>tabstop := 16\<rparr>) (loaded_line [9, 0x61]))
   = Inr [0, 1]"
  by code_simp

section \<open>The reads of the forward search\<close>

text \<open>
  C10. In the one-line buffer \<open>ab\<close> (two live cells) the search for \<open>abc\<close> from 1:1
  evaluates \<^verbatim>\<open>text[2]\<close>, twice; and in the buffer of the lines \<open>x\<close> and \<open>foo\<close> the
  search for \<open>foo\<close> from 1:2 starts the second line at \<open>j = -1\<close> and evaluates
  \<^verbatim>\<open>text[-1]\<close>, before the array.
\<close>

theorem find_match_reads_outside_live_text:
  "actual (loaded_line [0x61, 0x62]) = 2
   \<and> find_match default_config c_tolower (loaded_buffer [[0x61, 0x62]]) 1 1 [0x61, 0x62, 0x63]
       = ([(0, 0), (0, 1), (0, 2), (0, 1), (0, 2)], Inr None)
   \<and> find_match default_config c_tolower (loaded_buffer [[0x78], [0x66, 0x6F, 0x6F]]) 1 2 [0x66, 0x6F, 0x6F]
       = ([(0, 1), (1, - 1), (1, 0), (1, 1), (1, 2)], Inr (Some (2, 1)))"
  by code_simp

section \<open>Removing a line\<close>

text \<open>
  C5. When all eight slots of the line array are in use, \<open>remove_line\<close> of the first
  line does not yield the shortened sequence: its \<^verbatim>\<open>memmove\<close> of
  \<^verbatim>\<open>line_count - (offset - 1)\<close> = 9 slots from slot 1 leaves the array.
\<close>

theorem remove_line_overruns_line_array:
  "map_sum id (\<lambda>e. (line_count e, line_avail e, length (lines e))) eight_line_buffer = Inr (8, 8, 8)
   \<and> rbind eight_line_buffer (\<lambda>e. remove_line default_config None e 0) = Inl OutOfBounds"
  by code_simp

section \<open>The syntax recompute writes flags and incoming states only\<close>

lemma slotD:
  "slot env i = Inr l \<Longrightarrow> 0 \<le> i \<and> nat i < length (lines env) \<and> lines env ! nat i = Some l"
  by (auto simp: slot_def split: if_splits option.splits)

lemma paint_cells_strip:
  "map (\<lambda>c. c\<lparr>flags := 0\<rparr>) (paint_cells cs fl) = map (\<lambda>c. c\<lparr>flags := 0\<rparr>) cs"
  by (induction cs fl rule: paint_cells.induct) auto

lemma strip_paint_line [simp]: "strip_line (paint_line l fl) = strip_line l"
  by (simp add: strip_line_def paint_line_def paint_cells_strip)

lemma strip_clear_flags [simp]: "strip_line (clear_flags l) = strip_line l"
proof -
  let ?g = "\<lambda>c::char_t. c\<lparr>flags := 0\<rparr>"
  have "map ?g (map ?g (live l) @ drop (nat (actual l)) (cells l))
        = map ?g (take (nat (actual l)) (cells l)) @ map ?g (drop (nat (actual l)) (cells l))"
    by (simp add: live_def)
  also have "\<dots> = map ?g (cells l)"
    by (simp only: map_append [symmetric] append_take_drop_id)
  finally show ?thesis by (simp add: strip_line_def clear_flags_def)
qed

lemma strip_istate [simp]: "strip_line (l\<lparr>istate := s\<rparr>) = strip_line l"
  by (simp add: strip_line_def)

lemma lex_loop_strip:
  assumes "lex_loop calc prev line lno st i = Some y"
  shows "strip_line (fst y) = strip_line line"
proof (rule lex_loop.raw_induct
    [where P = "\<lambda>calc prev line lno st i y. strip_line (fst y) = strip_line line", OF _ assms])
  fix f calc prev line lno st i y
  assume ih: "\<And>prev line lno st i b y. f prev line lno st i b = Some y
                 \<Longrightarrow> strip_line (fst y) = strip_line lno"
    and body: "(case calc prev line lno st i of
                 (r, i', fl) \<Rightarrow> if r \<noteq> 0 then Some (paint_line line fl, r)
                                else f calc prev (paint_line line fl) lno r i') = Some y"
  show "strip_line (fst y) = strip_line line"
    using body ih by (auto split: prod.splits if_splits)
qed

lemma strip_update:
  assumes "k < length (lines env)" "lines env ! k = Some l" "strip_line l' = strip_line l"
  shows "strip (env\<lparr>lines := (lines env)[k := Some l']\<rparr>) = strip env"
proof -
  have "map (map_option strip_line) ((lines env)[k := Some l']) = map (map_option strip_line) (lines env)"
    using assms by (simp add: list_eq_iff_nth_eq nth_list_update)
  then show ?thesis by (simp add: strip_def)
qed

lemma strip_fields [simp]:
  "line_count (strip env) = line_count env" "loading (strip env) = loading env"
  "line_no (strip env) = line_no env" "col_no (strip env) = col_no env"
  "journal (strip env) = journal env" "history (strip env) = history env"
  "modified (strip env) = modified env" "mode (strip env) = mode env"
  "last_save_history (strip env) = last_save_history env" "next_addr (strip env) = next_addr env"
  "line_avail (strip env) = line_avail env" "length (lines (strip env)) = length (lines env)"
  by (simp_all add: strip_def)

lemma recalculate_syntax_strip:
  "recalculate_syntax syn env lno = Inr env' \<Longrightarrow> strip env' = strip env"
proof (induction syn env lno arbitrary: env' rule: recalculate_syntax.induct)
  case (1 syn env lno)
  from "1.prems" obtain line where sl: "slot env lno = Inr line"
    by (subst (asm) recalculate_syntax.simps) (auto split: sum.splits)
  note d = slotD [OF sl]
  show ?case
  proof (cases syn)
    case None
    with "1.prems" sl d show ?thesis
      by (subst (asm) recalculate_syntax.simps) (auto split: if_splits intro!: strip_update)
  next
    case (Some calc)
    from "1.prems" sl Some obtain line' st where
      ll: "lex_loop calc (take (nat lno) (lines env)) (clear_flags line) lno (istate line) 0 = Some (line', st)"
      and len: "\<not> int (length (cells line)) < actual line"
      by (subst (asm) recalculate_syntax.simps) (auto split: if_splits option.splits)
    define env1 where "env1 = env\<lparr>lines := (lines env)[nat lno := Some line']\<rparr>"
    have s1: "strip env1 = strip env"
      unfolding env1_def using lex_loop_strip [OF ll] d by (auto intro!: strip_update)
    show ?thesis
    proof (cases "lno + 1 < line_count env1")
      case False
      with "1.prems" sl Some ll len have "env' = env1"
        by (subst (asm) recalculate_syntax.simps) (simp add: env1_def Let_def)
      with s1 show ?thesis by simp
    next
      case True
      with "1.prems" sl Some ll len obtain nxt where sn: "slot env1 (lno + 1) = Inr nxt"
        by (subst (asm) recalculate_syntax.simps) (auto simp: env1_def Let_def split: sum.splits)
      note dn = slotD [OF sn]
      show ?thesis
      proof (cases "istate nxt \<noteq> st")
        case False
        with "1.prems" sl Some ll len True sn have "env' = env1"
          by (subst (asm) recalculate_syntax.simps) (simp add: env1_def Let_def)
        with s1 show ?thesis by simp
      next
        case ne: True
        define env2 where "env2 = env1\<lparr>lines := (lines env1)[nat (lno + 1) := Some (nxt\<lparr>istate := st\<rparr>)]\<rparr>"
        have s2: "strip env2 = strip env"
          unfolding env2_def using dn s1 by (auto simp: strip_update)
        show ?thesis
        proof (cases "loading env2")
          case l: True
          with "1.prems" sl Some ll len True sn ne have "env' = env2"
            by (subst (asm) recalculate_syntax.simps) (simp add: env1_def env2_def Let_def)
          with s2 show ?thesis by simp
        next
          case l: False
          with "1.prems" sl Some ll len True sn ne have r: "recalculate_syntax syn env2 (lno + 1) = Inr env'"
            by (subst (asm) recalculate_syntax.simps) (simp add: env1_def env2_def Let_def)
          have "strip env' = strip env2"
            by (rule "1.IH" [OF sl len Some ll refl env1_def True sn ne env2_def l r])
          with s2 show ?thesis by simp
        qed
      qed
    qed
  qed
qed

section \<open>The cascade of the syntax recompute\<close>

lemma paint_cells_length [simp]: "length (paint_cells cs fl) = length cs"
  by (induction cs fl rule: paint_cells.induct) auto

lemma paint_cells_drop: "length fl \<le> n \<Longrightarrow> drop n (paint_cells cs fl) = drop n cs"
  by (induction cs fl arbitrary: n rule: paint_cells.induct) (auto simp: drop_Cons split: nat.splits)

lemma paint_cells_take_clear:
  "map (\<lambda>c. c\<lparr>flags := 0\<rparr>) (take n (paint_cells cs fl)) = map (\<lambda>c. c\<lparr>flags := 0\<rparr>) (take n cs)"
  by (induction cs fl arbitrary: n rule: paint_cells.induct) (auto simp: take_Cons split: nat.splits)

lemma clear_flags_paint_line [simp]: "clear_flags (paint_line l fl) = clear_flags l"
  by (simp add: clear_flags_def paint_line_def live_def paint_cells_take_clear paint_cells_drop)

lemma paint_line_fields [simp]:
  "istate (paint_line l fl) = istate l" "actual (paint_line l fl) = actual l"
  by (simp_all add: paint_line_def)

lemma lex_loop_clear:
  assumes "lex_loop calc prev line lno st i = Some y"
  shows "clear_flags (fst y) = clear_flags line \<and> istate (fst y) = istate line"
proof (rule lex_loop.raw_induct
    [where P = "\<lambda>calc prev line lno st i y. clear_flags (fst y) = clear_flags line \<and> istate (fst y) = istate line", OF _ assms])
  fix f calc prev line lno st i y
  assume ih: "\<And>prev line lno st i b y. f prev line lno st i b = Some y
                 \<Longrightarrow> clear_flags (fst y) = clear_flags lno \<and> istate (fst y) = istate lno"
    and body: "(case calc prev line lno st i of
                 (r, i', fl) \<Rightarrow> if r \<noteq> 0 then Some (paint_line line fl, r)
                                else f calc prev (paint_line line fl) lno r i') = Some y"
  show "clear_flags (fst y) = clear_flags line \<and> istate (fst y) = istate line"
  proof (cases "calc prev line lno st i")
    case (fields r i' fl)
    show ?thesis
    proof (cases "r = 0")
      case True
      with body fields have "f calc prev (paint_line line fl) lno r i' = Some y" by simp
      from ih [OF this] show ?thesis by simp
    next
      case False
      with body fields show ?thesis by auto
    qed
  qed
qed

lemma clear_flags_fields [simp]:
  "istate (clear_flags l) = istate l" "actual (clear_flags l) = actual l"
  by (simp_all add: clear_flags_def)

lemma clear_flags_idem [simp]: "clear_flags (clear_flags l) = clear_flags l"
proof (cases "nat (actual l) \<le> length (cells l)")
  case True
  then show ?thesis by (simp add: clear_flags_def live_def min_def)
next
  case False
  then show ?thesis by (simp add: clear_flags_def live_def)
qed


lemma slotI:
  "0 \<le> i \<Longrightarrow> nat i < length (lines env) \<Longrightarrow> lines env ! nat i = Some l \<Longrightarrow> slot env i = Inr l"
  by (simp add: slot_def)

lemma slot_cong:
  "length (lines env') = length (lines env) \<Longrightarrow> lines env' ! nat i = lines env ! nat i
     \<Longrightarrow> slot env' i = slot env i"
  by (simp add: slot_def)

lemma lexer_exit_eq:
  assumes sl: "slot env k = Inr line"
    and ll: "lex_loop calc (take (nat k) (lines env)) (clear_flags line) k (istate line) 0 = Some (line', st)"
    and len: "length (lines env') = length (lines env)"
    and before: "\<forall>i. 0 \<le> i \<and> i < k \<longrightarrow> lines env' ! nat i = lines env ! nat i"
    and at: "lines env' ! nat k = Some line'"
  shows "lexer_exit calc env' k = Some st"
proof -
  note d = slotD [OF sl]
  have "take (nat k) (lines env') = take (nat k) (lines env)"
  proof (rule nth_take_lemma)
    show "nat k \<le> length (lines env')" using d len by simp
    show "nat k \<le> length (lines env)" using d by simp
    show "i < nat k \<longrightarrow> lines env' ! i = lines env ! i" for i
      using before [rule_format, of "int i"] by simp
  qed
  moreover have "slot env' k = Inr line'" using d len at by (simp add: slotI)
  moreover have "clear_flags line' = clear_flags line" "istate line' = istate line"
    using lex_loop_clear [OF ll] by simp_all
  ultimately show ?thesis using ll by (simp add: lexer_exit_def)
qed

lemma recalculate_syntax_cascade_aux:
  "recalculate_syntax (Some calc) env k = Inr env' \<Longrightarrow> \<not> loading env \<Longrightarrow>
     \<exists>m. cascade_to calc env env' k m
       \<and> (\<exists>l l'. slot env k = Inr l \<and> lines env' ! nat k = Some l' \<and> istate l' = istate l)"
proof (induction "Some calc" env k arbitrary: env' rule: recalculate_syntax.induct)
  case (1 env lno)
  from "1.prems" obtain line where sl: "slot env lno = Inr line"
    by (subst (asm) recalculate_syntax.simps) (auto split: sum.splits)
  note d = slotD [OF sl]
  from "1.prems" sl obtain line' st where
    ll: "lex_loop calc (take (nat lno) (lines env)) (clear_flags line) lno (istate line) 0 = Some (line', st)"
    and len: "\<not> int (length (cells line)) < actual line"
    by (subst (asm) recalculate_syntax.simps) (auto split: if_splits option.splits)
  have il: "istate line' = istate line" using lex_loop_clear [OF ll] by simp
  define env1 where "env1 = env\<lparr>lines := (lines env)[nat lno := Some line']\<rparr>"
  have e1: "length (lines env1) = length (lines env)" "lines env1 ! nat lno = Some line'"
    "\<And>i. i \<noteq> nat lno \<Longrightarrow> lines env1 ! i = lines env ! i" "line_count env1 = line_count env"
    "loading env1 = loading env"
    using d by (simp_all add: env1_def)
  have x1: "lexer_exit calc env1 lno = Some st"
    by (rule lexer_exit_eq [OF sl ll]) (use e1 d in auto)
  show ?case
  proof (cases "lno + 1 < line_count env1")
    case False
    with "1.prems" sl ll len have eq: "env' = env1"
      by (subst (asm) recalculate_syntax.simps) (simp add: env1_def Let_def)
    have "cascade_to calc env env' lno lno"
      unfolding cascade_to_def eq using e1 False d by (auto simp: nat_eq_iff)
    then show ?thesis using sl e1 il eq by blast
  next
    case True
    with "1.prems" sl ll len obtain nxt where sn: "slot env1 (lno + 1) = Inr nxt"
      by (subst (asm) recalculate_syntax.simps) (auto simp: env1_def Let_def split: sum.splits)
    note dn = slotD [OF sn]
    show ?thesis
    proof (cases "istate nxt \<noteq> st")
      case False
      with "1.prems" sl ll len True sn have eq: "env' = env1"
        by (subst (asm) recalculate_syntax.simps) (simp add: env1_def Let_def)
      have "istate_follows calc env1 lno"
        using sn x1 False by (simp add: istate_follows_def)
      then have "cascade_to calc env env' lno lno"
        unfolding cascade_to_def eq using e1 d by (auto simp: nat_eq_iff)
      then show ?thesis using sl e1 il eq by blast
    next
      case ne: True
      define env2 where "env2 = env1\<lparr>lines := (lines env1)[nat (lno + 1) := Some (nxt\<lparr>istate := st\<rparr>)]\<rparr>"
      have l2: "\<not> loading env2" using "1.prems" by (simp add: env2_def env1_def)
      with "1.prems" sl ll len True sn ne have r: "recalculate_syntax (Some calc) env2 (lno + 1) = Inr env'"
        by (subst (asm) recalculate_syntax.simps) (simp add: env1_def env2_def Let_def)
      have e2: "length (lines env2) = length (lines env)" "line_count env2 = line_count env"
        "lines env2 ! nat lno = Some line'" "lines env2 ! nat (lno + 1) = Some (nxt\<lparr>istate := st\<rparr>)"
        "\<And>i. i \<noteq> nat lno \<Longrightarrow> i \<noteq> nat (lno + 1) \<Longrightarrow> lines env2 ! i = lines env ! i"
        using d dn e1 by (simp_all add: env2_def nat_add_distrib)
      have sn0: "slot env (lno + 1) = Inr nxt"
        using sn e1 d by (simp add: slot_def nat_add_distrib split: if_splits)
      from "1.hyps" [OF sl len refl ll refl env1_def True sn ne env2_def l2 r l2]
      obtain m l l' where c: "cascade_to calc env2 env' (lno + 1) m"
        and s2: "slot env2 (lno + 1) = Inr l" and a2: "lines env' ! nat (lno + 1) = Some l'"
        and i2: "istate l' = istate l"
        by blast
      have l_eq: "l = nxt\<lparr>istate := st\<rparr>" using s2 e2 dn by (simp add: slot_def split: if_splits)
      have len': "length (lines env') = length (lines env)" using c e2 by (simp add: cascade_to_def)
      have keep: "\<And>i. 0 \<le> i \<Longrightarrow> i < lno + 1 \<Longrightarrow> lines env' ! nat i = lines env2 ! nat i"
        using c by (simp add: cascade_to_def)
      have at: "lines env' ! nat lno = Some line'" using keep [of lno] d e2 by simp
      have before: "\<forall>i. 0 \<le> i \<and> i < lno \<longrightarrow> lines env' ! nat i = lines env ! nat i"
        using keep e2 d by (auto simp: nat_add_distrib)
      have x': "lexer_exit calc env' lno = Some st"
        by (rule lexer_exit_eq [OF sl ll len' before at])
      have sn': "slot env' (lno + 1) = Inr l'" using a2 dn len' e1 by (simp add: slotI)
      have f: "istate_follows calc env' lno"
        using x' sn' i2 l_eq by (simp add: istate_follows_def)
      have chg: "line_istate env' (lno + 1) \<noteq> line_istate env (lno + 1)"
        using sn' sn0 i2 l_eq ne by (simp add: line_istate_def)
      have "cascade_to calc env env' lno m"
        unfolding cascade_to_def
      proof (intro conjI allI impI)
        show "lno \<le> m" using c by (simp add: cascade_to_def)
        show "length (lines env') = length (lines env)" by (rule len')
      next
        fix j assume j: "lno \<le> j \<and> j \<le> m \<and> j + 1 < line_count env"
        show "istate_follows calc env' j"
        proof (cases "j = lno")
          case True then show ?thesis using f by simp
        next
          case False
          then show ?thesis using c j e2 by (simp add: cascade_to_def)
        qed
      next
        fix j assume j: "lno \<le> j \<and> j < m"
        show "line_istate env' (j + 1) \<noteq> line_istate env (j + 1)"
        proof (cases "j = lno")
          case True then show ?thesis using chg by simp
        next
          case False
          then have "line_istate env' (j + 1) \<noteq> line_istate env2 (j + 1)"
            using c j by (simp add: cascade_to_def)
          moreover have "slot env2 (j + 1) = slot env (j + 1)"
            using False j e2 d by (intro slot_cong) (auto simp: nat_add_distrib)
          ultimately show ?thesis by (simp add: line_istate_def)
        qed
      next
        fix i assume i: "0 \<le> i \<and> (i < lno \<or> m < i)"
        have "lines env' ! nat i = lines env2 ! nat i"
          using c i by (auto simp: cascade_to_def)
        moreover have "lines env2 ! nat i = lines env ! nat i"
          using i c d by (intro e2) (auto simp: cascade_to_def nat_eq_iff)
        ultimately show "lines env' ! nat i = lines env ! nat i" by simp
      qed
      then show ?thesis using sl at il by blast
    qed
  qed
qed

text \<open>
  C3. When \<open>recalculate_syntax\<close> of line \<open>k\<close> returns in a buffer that is not loading,
  it has gone through the lines \<open>k\<close> to some \<open>m\<close>: for each of them with a next line,
  the incoming state stored in the next line is the state the lexer produces for it;
  each step before \<open>m\<close> changed the stored state of the next line, and no line before
  \<open>k\<close> or after \<open>m\<close> was touched (the line after \<open>m\<close> kept its state: the cascade
  stopped there).
\<close>

theorem recalculate_syntax_cascade:
  assumes "recalculate_syntax (Some calc) env k = Inr env'" and "\<not> loading env"
  shows "\<exists>m. k \<le> m
      \<and> (\<forall>j. k \<le> j \<and> j \<le> m \<and> j + 1 < line_count env \<longrightarrow> istate_follows calc env' j)
      \<and> (\<forall>j. k \<le> j \<and> j < m \<longrightarrow> line_istate env' (j + 1) \<noteq> line_istate env (j + 1))
      \<and> (\<forall>i. 0 \<le> i \<and> (i < k \<or> m < i) \<longrightarrow> lines env' ! nat i = lines env ! nat i)
      \<and> length (lines env') = length (lines env)"
  using recalculate_syntax_cascade_aux [OF assms] unfolding cascade_to_def by blast

theorem recalculate_syntax_cascade_witness:
  "\<not> loading comment_buffer
   \<and> (case recalculate_syntax (Some comment_lexer) comment_buffer 0 of
        Inl f \<Rightarrow> False
      | Inr env' \<Rightarrow>
          map (line_istate env') [0, 1, 2, 3] = [Inr 0, Inr 1, Inr 1, Inr (- 1)]
          \<and> (\<exists>m. 0 \<le> m
              \<and> (\<forall>j. 0 \<le> j \<and> j \<le> m \<and> j + 1 < line_count comment_buffer
                     \<longrightarrow> istate_follows comment_lexer env' j)
              \<and> (\<forall>j. 0 \<le> j \<and> j < m
                     \<longrightarrow> line_istate env' (j + 1) \<noteq> line_istate comment_buffer (j + 1))
              \<and> (\<forall>i. 0 \<le> i \<and> (i < 0 \<or> m < i)
                     \<longrightarrow> lines env' ! nat i = lines comment_buffer ! nat i)
              \<and> length (lines env') = length (lines comment_buffer)))"
proof -
  have nl: "\<not> loading comment_buffer" by code_simp
  have "case recalculate_syntax (Some comment_lexer) comment_buffer 0 of
          Inl f \<Rightarrow> False
        | Inr env' \<Rightarrow> map (line_istate env') [0, 1, 2, 3] = [Inr 0, Inr 1, Inr 1, Inr (- 1)]"
    by code_simp
  then obtain env' where r: "recalculate_syntax (Some comment_lexer) comment_buffer 0 = Inr env'"
    and i: "map (line_istate env') [0, 1, 2, 3] = [Inr 0, Inr 1, Inr 1, Inr (- 1)]"
    by (auto split: sum.splits)
  from recalculate_syntax_cascade [OF r nl] i r nl show ?thesis by simp
qed

section \<open>The paren matcher against the specification\<close>

lemma paren_lookup_table:
  "paren_lookup b 0 = map_option (\<lambda>(f, p). (if f then 1 else - 1, p)) (bracket_partner b)"
  apply (subst paren_lookup.simps, simp add: paren_pairs_def)+
  apply (auto simp: bracket_partner_def bracket_pairs_def)
  done

lemma bracket_partner_differs: "bracket_partner b = Some (f, p) \<Longrightarrow> b \<noteq> p"
  by (auto simp: bracket_partner_def bracket_pairs_def split: if_splits)

lemma count_brackets_append:
  "count_brackets b p fl n (xs @ ys) =
     (case count_brackets b p fl n xs of
        Some pos \<Rightarrow> Some pos
      | None \<Rightarrow> count_brackets b p fl (final_count b p fl n xs) ys)"
proof (induction xs arbitrary: n)
  case Nil
  then show ?case by simp
next
  case (Cons a xs)
  obtain pos x where a: "a = (pos, x)" by (cases a)
  show ?case unfolding a by (simp add: Cons.IH cong: option.case_cong)
qed

lemma scan_line_forward:
  assumes "actual l \<le> int (length (cells l))" "1 \<le> col" "b \<noteq> pm"
  shows "paren_scan_line l b pm fl 1 col n =
           Inr (case count_brackets b pm fl n (map (\<lambda>c. ((line, c), cells l ! nat (c - 1))) [col .. actual l]) of
                  Some (ln, c) \<Rightarrow> (True, c, 0)
                | None \<Rightarrow> (False, max col (actual l + 1), final_count b pm fl n
                                     (map (\<lambda>c. ((line, c), cells l ! nat (c - 1))) [col .. actual l])))"
  using assms(2)
proof (induction "nat (actual l + 1 - col)" arbitrary: col n)
  case 0
  then have "\<not> col < actual l + 1" by simp
  then show ?case by (subst paren_scan_line.simps) simp
next
  case (Suc k)
  then have lt: "col < actual l + 1" by simp
  with Suc.prems assms(1) have c: "cell_at l (col - 1) = Inr (cells l ! nat (col - 1))"
    by (simp add: cell_at_def)
  have u: "[col .. actual l] = col # [col + 1 .. actual l]"
    using lt by (simp add: upto_rec1)
  have k: "k = nat (actual l + 1 - (col + 1))" using Suc.hyps(2) by simp
  have ih: "paren_scan_line l b pm fl 1 (col + 1) n' =
           Inr (case count_brackets b pm fl n' (map (\<lambda>c. ((line, c), cells l ! nat (c - 1))) [col + 1 .. actual l]) of
                  Some (ln, c) \<Rightarrow> (True, c, 0)
                | None \<Rightarrow> (False, max (col + 1) (actual l + 1), final_count b pm fl n'
                                     (map (\<lambda>c. ((line, c), cells l ! nat (c - 1))) [col + 1 .. actual l])))" for n'
    using Suc.hyps(1) [OF k, of n'] Suc.prems by simp
  have m: "max (col + 1) (actual l + 1) = max col (actual l + 1)" using lt by simp
  show ?case
    apply (subst paren_scan_line.simps)
    using lt Suc.prems c assms(3)
    apply (simp add: Let_def ih u m cong: option.case_cong)
    done
qed

lemma scan_line_backward:
  assumes "actual l \<le> int (length (cells l))" "col \<le> actual l" "b \<noteq> pm"
  shows "paren_scan_line l b pm fl (- 1) col n =
           Inr (case count_brackets b pm fl n (rev (map (\<lambda>c. ((line, c), cells l ! nat (c - 1))) [1 .. col])) of
                  Some (ln, c) \<Rightarrow> (True, c, 0)
                | None \<Rightarrow> (False, min col 0, final_count b pm fl n
                                     (rev (map (\<lambda>c. ((line, c), cells l ! nat (c - 1))) [1 .. col]))))"
  using assms(2)
proof (induction "nat col" arbitrary: col n)
  case 0
  then have "\<not> col > 0" by simp
  then show ?case by (subst paren_scan_line.simps) simp
next
  case (Suc k)
  then have gt: "col > 0" by simp
  with Suc.prems assms(1) have c: "cell_at l (col - 1) = Inr (cells l ! nat (col - 1))"
    by (simp add: cell_at_def)
  have u: "[1 .. col] = [1 .. col - 1] @ [col]"
    using gt by (simp add: upto_rec2)
  have k: "k = nat (col - 1)" using Suc.hyps(2) by simp
  have ih: "paren_scan_line l b pm fl (- 1) (col - 1) n' =
           Inr (case count_brackets b pm fl n' (rev (map (\<lambda>c. ((line, c), cells l ! nat (c - 1))) [1 .. col - 1])) of
                  Some (ln, c) \<Rightarrow> (True, c, 0)
                | None \<Rightarrow> (False, min (col - 1) 0, final_count b pm fl n'
                                     (rev (map (\<lambda>c. ((line, c), cells l ! nat (c - 1))) [1 .. col - 1]))))" for n'
    using Suc.hyps(1) [OF k, of n'] Suc.prems by simp
  have m: "min (col - 1) 0 = min col 0" using gt by simp
  show ?case
    apply (subst paren_scan_line.simps)
    using gt Suc.prems c assms(3)
    apply (simp add: Let_def ih u m cong: option.case_cong)
    done
qed


lemma lines_okD:
  assumes "lines_ok env" "1 \<le> line" "line \<le> line_count env"
  shows "\<exists>l. slot env (line - 1) = Inr l \<and> 0 \<le> actual l \<and> actual l \<le> int (length (cells l))"
proof -
  have i: "nat (line - 1) < length (take (nat (line_count env)) (lines env))"
    using assms by (auto simp: lines_ok_def)
  from assms(1) have "list_all (\<lambda>s. case s of None \<Rightarrow> False
                              | Some l \<Rightarrow> 0 \<le> actual l \<and> actual l \<le> int (length (cells l)))
           (take (nat (line_count env)) (lines env))"
    by (simp add: lines_ok_def)
  from this i have "case take (nat (line_count env)) (lines env) ! nat (line - 1) of None \<Rightarrow> False
                              | Some l \<Rightarrow> 0 \<le> actual l \<and> actual l \<le> int (length (cells l))"
    by (simp only: list_all_length)
  moreover have "take (nat (line_count env)) (lines env) ! nat (line - 1) = lines env ! nat (line - 1)"
    using assms by simp
  ultimately show ?thesis
    using assms by (auto simp: slot_def lines_ok_def split: option.splits)
qed

lemma count_brackets_line:
  "count_brackets b pm fl n (map (\<lambda>c. ((line, c), f c)) cs) = Some (ln, c) \<Longrightarrow> ln = line"
  by (induction cs arbitrary: n) (auto split: if_splits)

lemma count_brackets_line_rev:
  "count_brackets b pm fl n (rev (map (\<lambda>c. ((line, c), f c)) cs)) = Some (ln, c) \<Longrightarrow> ln = line"
  using count_brackets_line [of b pm fl n line f "rev cs" ln c] by (simp add: rev_map)

lemma paren_scan_forward:
  assumes ok: "lines_ok env" and bp: "b \<noteq> pm"
  shows "1 \<le> line \<Longrightarrow> line \<le> line_count env \<Longrightarrow> 1 \<le> col \<Longrightarrow>
         paren_scan env b pm fl 1 line col n = Inr (count_brackets b pm fl n (scan_order env True line col))"
proof (induction "nat (line_count env - line)" arbitrary: line col n)
  case 0
  then have last: "line = line_count env" by simp
  from lines_okD [OF ok "0.prems"(1,2)] obtain l where
    l: "slot env (line - 1) = Inr l" "0 \<le> actual l" "actual l \<le> int (length (cells l))" by blast
  show ?case
    apply (subst paren_scan.simps)
    using l last "0.prems" scan_line_forward [OF l(3) "0.prems"(3) bp, of fl n line]
    apply (auto simp: scan_order_def line_span_def line_len_def split: option.splits
                dest: count_brackets_line)
    done
next
  case (Suc k)
  then have lt: "line < line_count env" by simp
  from lines_okD [OF ok Suc.prems(1,2)] obtain l where
    l: "slot env (line - 1) = Inr l" "0 \<le> actual l" "actual l \<le> int (length (cells l))" by blast
  from lines_okD [OF ok, of "line + 1"] lt Suc.prems obtain l' where
    l': "slot env line = Inr l'" by auto
  have k: "k = nat (line_count env - (line + 1))" using Suc.hyps(2) by simp
  have ih: "paren_scan env b pm fl 1 (line + 1) 1 n' =
              Inr (count_brackets b pm fl n' (scan_order env True (line + 1) 1))" for n'
    using Suc.hyps(1) [OF k, of 1 n'] lt Suc.prems by simp
  have u: "[line + 1 .. line_count env] = (line + 1) # [line + 1 + 1 .. line_count env]"
    using lt by (simp add: upto_rec1)
  show ?case
    apply (subst paren_scan.simps)
    using l l' lt Suc.prems scan_line_forward [OF l(3) Suc.prems(3) bp, of fl n line]
    apply (auto simp: scan_order_def line_span_def line_len_def ih u count_brackets_append
                split: option.splits dest: count_brackets_line)
    done
qed


lemma paren_scan_backward:
  assumes ok: "lines_ok env" and bp: "b \<noteq> pm"
  shows "1 \<le> line \<Longrightarrow> line \<le> line_count env \<Longrightarrow> col \<le> line_len env line \<Longrightarrow>
         paren_scan env b pm fl (- 1) line col n = Inr (count_brackets b pm fl n (scan_order env False line col))"
proof (induction "nat (line - 1)" arbitrary: line col n)
  case 0
  then have first: "line = 1" by simp
  from lines_okD [OF ok "0.prems"(1,2)] obtain l where
    l: "slot env (line - 1) = Inr l" "0 \<le> actual l" "actual l \<le> int (length (cells l))" by blast
  have c: "col \<le> actual l" using "0.prems"(3) l by (simp add: line_len_def)
  show ?case
    apply (subst paren_scan.simps)
    using l first "0.prems" scan_line_backward [OF l(3) c bp, of fl n line]
    apply (auto simp: scan_order_def line_span_def line_len_def split: option.splits
                dest: count_brackets_line_rev)
    done
next
  case (Suc k)
  then have gt: "1 < line" by simp
  from lines_okD [OF ok Suc.prems(1,2)] obtain l where
    l: "slot env (line - 1) = Inr l" "0 \<le> actual l" "actual l \<le> int (length (cells l))" by blast
  have c: "col \<le> actual l" using Suc.prems(3) l by (simp add: line_len_def)
  from lines_okD [OF ok, of "line - 1"] gt Suc.prems obtain l' where
    l': "slot env (line - 1 - 1) = Inr l'" by auto
  have k: "k = nat (line - 1 - 1)" using Suc.hyps(2) by simp
  have ih: "paren_scan env b pm fl (- 1) (line - 1) (actual l') n' =
              Inr (count_brackets b pm fl n' (scan_order env False (line - 1) (actual l')))" for n'
    using Suc.hyps(1) [OF k, of "actual l'" n'] gt Suc.prems l' by (simp add: line_len_def)
  have u: "[1 .. line - 1] = [1 .. line - 1 - 1] @ [line - 1]"
    using gt by (simp add: upto_rec2)
  show ?case
    apply (subst paren_scan.simps)
    using l l' gt Suc.prems scan_line_backward [OF l(3) c bp, of fl n line]
    apply (auto simp: scan_order_def line_span_def line_len_def ih u count_brackets_append
                split: option.splits dest: count_brackets_line_rev)
    done
qed

text \<open>
  C8. In a buffer whose lines are allocated, with the position \<open>col_no - in_col + 1\<close>
  on a cell of the cursor line, \<open>find_matching_paren\<close> returns, and what it returns is
  the match of the specification: the direction and partner come from the pair table,
  only cells of the starting cell's syntax class count, the answer is the partner at
  which the counter reaches zero, and there is none when the scan runs out of lines
  (or when the cell is no bracket).
\<close>

theorem find_matching_paren_is_matching_bracket:
  assumes "lines_ok env" and "1 \<le> line_no env" and "line_no env \<le> line_count env"
    and "1 \<le> col_no env - in_col + 1" and "col_no env - in_col + 1 \<le> line_len env (line_no env)"
  shows "find_matching_paren env in_col
           = Inr (matching_bracket env (line_no env) (col_no env - in_col + 1))"
proof -
  from lines_okD [OF assms(1,2,3)] obtain l where
    l: "slot env (line_no env - 1) = Inr l" "0 \<le> actual l" "actual l \<le> int (length (cells l))" by blast
  have c: "col_no env - in_col + 1 \<le> actual l" using assms(5) l by (simp add: line_len_def)
  let ?x = "cells l ! nat (col_no env - in_col)"
  have x: "cell_at l (col_no env - in_col) = Inr ?x"
    using c l assms(4) by (simp add: cell_at_def)
  show ?thesis
  proof (cases "bracket_partner (uint (codepoint ?x))")
    case None
    then show ?thesis
      using l c x by (simp add: find_matching_paren_def matching_bracket_def rbind_def paren_lookup_table Let_def)
  next
    case (Some fp)
    obtain f p where fp: "fp = (f, p)" by (cases fp)
    note ne = bracket_partner_differs [OF Some [unfolded fp]]
    show ?thesis
    proof (cases f)
      case True
      with Some fp l c x paren_scan_forward [OF assms(1) ne assms(2,3,4)] show ?thesis
        by (simp add: find_matching_paren_def matching_bracket_def rbind_def paren_lookup_table Let_def)
    next
      case False
      with Some fp l c x paren_scan_backward [OF assms(1) ne assms(2,3,5)] show ?thesis
        by (simp add: find_matching_paren_def matching_bracket_def rbind_def paren_lookup_table Let_def)
    qed
  qed
qed

theorem find_matching_paren_is_matching_bracket_witness:
  "find_matching_paren (loaded_buffer [[0x7B], [0x7D]]) 1 = Inr (Some (2, 1))
   \<and> find_matching_paren ((loaded_buffer [[0x7B], [0x7D]])\<lparr>line_no := 2\<rparr>) 1 = Inr (Some (1, 1))
   \<and> find_matching_paren ((loaded_buffer [[0x7B, 0x28], [0x61, 0x29, 0x29], [0x7D]])\<lparr>line_no := 2, col_no := 3\<rparr>) 1
       = Inr None"
proof -
  let ?e1 = "loaded_buffer [[0x7B], [0x7D]]"
  let ?e2 = "(loaded_buffer [[0x7B], [0x7D]])\<lparr>line_no := 2\<rparr>"
  let ?e3 = "(loaded_buffer [[0x7B, 0x28], [0x61, 0x29, 0x29], [0x7D]])\<lparr>line_no := 2, col_no := 3\<rparr>"
  have h1: "lines_ok ?e1" "1 \<le> line_no ?e1" "line_no ?e1 \<le> line_count ?e1"
    "1 \<le> col_no ?e1 - 1 + 1" "col_no ?e1 - 1 + 1 \<le> line_len ?e1 (line_no ?e1)"
    by code_simp+
  have h2: "lines_ok ?e2" "1 \<le> line_no ?e2" "line_no ?e2 \<le> line_count ?e2"
    "1 \<le> col_no ?e2 - 1 + 1" "col_no ?e2 - 1 + 1 \<le> line_len ?e2 (line_no ?e2)"
    by code_simp+
  have h3: "lines_ok ?e3" "1 \<le> line_no ?e3" "line_no ?e3 \<le> line_count ?e3"
    "1 \<le> col_no ?e3 - 1 + 1" "col_no ?e3 - 1 + 1 \<le> line_len ?e3 (line_no ?e3)"
    by code_simp+
  have m1: "matching_bracket ?e1 (line_no ?e1) (col_no ?e1 - 1 + 1) = Some (2, 1)" by code_simp
  have m2: "matching_bracket ?e2 (line_no ?e2) (col_no ?e2 - 1 + 1) = Some (1, 1)" by code_simp
  have m3: "matching_bracket ?e3 (line_no ?e3) (col_no ?e3 - 1 + 1) = None" by code_simp
  show ?thesis
    using find_matching_paren_is_matching_bracket [OF h1]
      find_matching_paren_is_matching_bracket [OF h2]
      find_matching_paren_is_matching_bracket [OF h3]
    by (simp only: m1 m2 m3)
qed

section \<open>Buffer text and well-formed buffers\<close>

lemma rbind_Inr_iff [simp]: "rbind r f = Inr y \<longleftrightarrow> (\<exists>x. r = Inr x \<and> f x = Inr y)"
  by (cases r) (simp_all add: rbind_def)

lemma rbind_Inr [simp]: "rbind (Inr x) f = f x"
  by (simp add: rbind_def)

lemma rbind_Inl [simp]: "rbind (Inl e) f = Inl e"
  by (simp add: rbind_def)

lemma same_text_refl [simp]: "same_text e e"
  by (simp add: same_text_def)

lemma same_text_sym: "same_text a b \<Longrightarrow> same_text b a"
  by (simp add: same_text_def)

lemma same_text_trans [trans]: "same_text a b \<Longrightarrow> same_text b c \<Longrightarrow> same_text a c"
  by (simp add: same_text_def)

lemma bare_strip: "bare_line (strip_line l) = bare_line l"
  by (simp add: bare_line_def strip_line_def comp_def)

lemma strip_same_text: "strip a = strip b \<Longrightarrow> same_text a b"
proof -
  assume s: "strip a = strip b"
  have "map (map_option bare_line) (lines (strip e)) = map (map_option bare_line) (lines e)" for e
    by (simp add: strip_def option.map_comp comp_def bare_strip)
  moreover have "(strip e)\<lparr>lines := []\<rparr> = e\<lparr>lines := []\<rparr>" for e
    by (simp add: strip_def)
  ultimately show ?thesis unfolding same_text_def using s by metis
qed

lemma recalculate_syntax_same_text:
  "recalculate_syntax syn env lno = Inr env' \<Longrightarrow> same_text env' env"
  by (rule strip_same_text) (rule recalculate_syntax_strip)

lemma same_text_fields:
  assumes "same_text a b"
  shows "line_count a = line_count b" "line_avail a = line_avail b" "loading a = loading b"
    "modified a = modified b" "mode a = mode b" "line_no a = line_no b" "col_no a = col_no b"
    "journal a = journal b" "history a = history b" "last_save_history a = last_save_history b"
    "next_addr a = next_addr b" "length (lines a) = length (lines b)" "tabstop a = tabstop b"
    "coffset a = coffset b" "search a = search b" "indent a = indent b" "offset a = offset b"
    "preferred_column a = preferred_column b"
proof -
  from assms have e: "a\<lparr>lines := []\<rparr> = b\<lparr>lines := []\<rparr>"
    and m: "map (map_option bare_line) (lines a) = map (map_option bare_line) (lines b)"
    by (simp_all add: same_text_def)
  from m show "length (lines a) = length (lines b)" by (rule map_eq_imp_length_eq)
  from e have "line_count (a\<lparr>lines := []\<rparr>) = line_count (b\<lparr>lines := []\<rparr>)" by simp
  then show "line_count a = line_count b" by simp
  from e have "line_avail (a\<lparr>lines := []\<rparr>) = line_avail (b\<lparr>lines := []\<rparr>)" by simp
  then show "line_avail a = line_avail b" by simp
  from e have "loading (a\<lparr>lines := []\<rparr>) = loading (b\<lparr>lines := []\<rparr>)" by simp
  then show "loading a = loading b" by simp
  from e have "modified (a\<lparr>lines := []\<rparr>) = modified (b\<lparr>lines := []\<rparr>)" by simp
  then show "modified a = modified b" by simp
  from e have "mode (a\<lparr>lines := []\<rparr>) = mode (b\<lparr>lines := []\<rparr>)" by simp
  then show "mode a = mode b" by simp
  from e have "line_no (a\<lparr>lines := []\<rparr>) = line_no (b\<lparr>lines := []\<rparr>)" by simp
  then show "line_no a = line_no b" by simp
  from e have "col_no (a\<lparr>lines := []\<rparr>) = col_no (b\<lparr>lines := []\<rparr>)" by simp
  then show "col_no a = col_no b" by simp
  from e have "journal (a\<lparr>lines := []\<rparr>) = journal (b\<lparr>lines := []\<rparr>)" by simp
  then show "journal a = journal b" by simp
  from e have "history (a\<lparr>lines := []\<rparr>) = history (b\<lparr>lines := []\<rparr>)" by simp
  then show "history a = history b" by simp
  from e have "last_save_history (a\<lparr>lines := []\<rparr>) = last_save_history (b\<lparr>lines := []\<rparr>)" by simp
  then show "last_save_history a = last_save_history b" by simp
  from e have "next_addr (a\<lparr>lines := []\<rparr>) = next_addr (b\<lparr>lines := []\<rparr>)" by simp
  then show "next_addr a = next_addr b" by simp
  from e have "tabstop (a\<lparr>lines := []\<rparr>) = tabstop (b\<lparr>lines := []\<rparr>)" by simp
  then show "tabstop a = tabstop b" by simp
  from e have "coffset (a\<lparr>lines := []\<rparr>) = coffset (b\<lparr>lines := []\<rparr>)" by simp
  then show "coffset a = coffset b" by simp
  from e have "search (a\<lparr>lines := []\<rparr>) = search (b\<lparr>lines := []\<rparr>)" by simp
  then show "search a = search b" by simp
  from e have "indent (a\<lparr>lines := []\<rparr>) = indent (b\<lparr>lines := []\<rparr>)" by simp
  then show "indent a = indent b" by simp
  from e have "offset (a\<lparr>lines := []\<rparr>) = offset (b\<lparr>lines := []\<rparr>)" by simp
  then show "offset a = offset b" by simp
  from e have "preferred_column (a\<lparr>lines := []\<rparr>) = preferred_column (b\<lparr>lines := []\<rparr>)" by simp
  then show "preferred_column a = preferred_column b" by simp
qed

lemma line_text_bare: "line_text l = take (nat (fst (snd (bare_line l)))) (snd (snd (bare_line l)))"
  by (simp add: line_text_def live_def bare_line_def take_map)

lemma wf_line_bare:
  "wf_line l \<longleftrightarrow> (case bare_line l of (av, ac, cps) \<Rightarrow> 0 \<le> ac \<and> ac \<le> av \<and> int (length cps) = av)"
  by (simp add: wf_line_def bare_line_def)

lemma same_text_nth:
  assumes "same_text a b" "i < length (lines a)"
  shows "map_option bare_line (lines a ! i) = map_option bare_line (lines b ! i)"
proof -
  from assms(1) have m: "map (map_option bare_line) (lines a) = map (map_option bare_line) (lines b)"
    by (simp add: same_text_def)
  have "map (map_option bare_line) (lines a) ! i = map (map_option bare_line) (lines b) ! i"
    by (simp only: m)
  then show ?thesis using assms(2) same_text_fields(12) [OF assms(1)] by simp
qed

lemma same_text_buffer_text: "same_text a b \<Longrightarrow> buffer_text a = buffer_text b"
proof -
  assume s: "same_text a b"
  have t: "(\<lambda>s. case s of None \<Rightarrow> [] | Some l \<Rightarrow> line_text l)
           = (\<lambda>s. case s of None \<Rightarrow> [] | Some (av, ac, cps) \<Rightarrow> take (nat ac) cps) \<circ> map_option bare_line"
    by (auto simp: fun_eq_iff line_text_bare split: option.splits prod.splits)
  have "buffer_text e = map (\<lambda>s. case s of None \<Rightarrow> [] | Some (av, ac, cps) \<Rightarrow> take (nat ac) cps)
                  (take (nat (line_count e)) (map (map_option bare_line) (lines e)))" for e
    unfolding buffer_text_def t by (simp add: take_map)
  then show ?thesis using s same_text_fields(1) [OF s] by (simp add: same_text_def)
qed

lemma same_text_wf: "same_text a b \<Longrightarrow> wf_buffer a = wf_buffer b"
proof -
  assume s: "same_text a b"
  have t: "(\<lambda>s. case s of None \<Rightarrow> False | Some l \<Rightarrow> wf_line l)
           = (\<lambda>s. case s of None \<Rightarrow> False | Some (av, ac, cps) \<Rightarrow> 0 \<le> ac \<and> ac \<le> av \<and> int (length cps) = av) \<circ> map_option bare_line"
    by (auto simp: fun_eq_iff wf_line_bare split: option.splits prod.splits)
  have "list_all (\<lambda>s. case s of None \<Rightarrow> False | Some l \<Rightarrow> wf_line l) (take (nat (line_count e)) (lines e))
        = list_all (\<lambda>s. case s of None \<Rightarrow> False | Some (av, ac, cps) \<Rightarrow> 0 \<le> ac \<and> ac \<le> av \<and> int (length cps) = av)
             (take (nat (line_count e)) (map (map_option bare_line) (lines e)))" for e
    unfolding t by (simp add: take_map list_all_iff)
  from this [of a] this [of b]
  have "list_all (\<lambda>s. case s of None \<Rightarrow> False | Some l \<Rightarrow> wf_line l) (take (nat (line_count a)) (lines a))
      = list_all (\<lambda>s. case s of None \<Rightarrow> False | Some l \<Rightarrow> wf_line l) (take (nat (line_count b)) (lines b))"
    using s same_text_fields(1) [OF s] by (simp add: same_text_def)
  then show ?thesis
    using same_text_fields(1,2,12) [OF s] by (simp add: wf_buffer_def)
qed

lemma recalculate_tabs_loop_codepoints:
  "recalculate_tabs_loop ts j cs = Inr r \<Longrightarrow> map codepoint r = map codepoint cs"
  by (induction cs arbitrary: j r) (auto simp: Let_def split: if_splits sum.splits)

lemma recalculate_tabs_bare:
  assumes "recalculate_tabs env l = Inr l'"
  shows "bare_line l' = bare_line l"
proof (cases "loading env")
  case True
  with assms show ?thesis by (simp add: recalculate_tabs_def)
next
  case False
  with assms obtain r where r: "recalculate_tabs_loop (tabstop env) 0 (live l) = Inr r"
    and l': "l' = l\<lparr>cells := r @ drop (nat (actual l)) (cells l)\<rparr>"
    by (auto simp: recalculate_tabs_def split: if_splits sum.splits)
  have "map codepoint r = map codepoint (take (nat (actual l)) (cells l))"
    using recalculate_tabs_loop_codepoints [OF r] by (simp add: live_def)
  then have "map codepoint (r @ drop (nat (actual l)) (cells l)) = map codepoint (cells l)"
    by (simp add: take_map [symmetric] drop_map [symmetric])
  then show ?thesis by (simp add: l' bare_line_def)
qed

lemma bare_line_text: "bare_line a = bare_line b \<Longrightarrow> line_text a = line_text b"
  by (simp add: line_text_bare)

lemma bare_line_wf: "bare_line a = bare_line b \<Longrightarrow> wf_line a = wf_line b"
  by (simp add: wf_line_bare)

lemma bare_line_actual: "bare_line a = bare_line b \<Longrightarrow> actual a = actual b"
  by (simp add: bare_line_def)

lemma bare_line_rev_status [simp]: "bare_line (l\<lparr>rev_status := r\<rparr>) = bare_line l"
  by (simp add: bare_line_def)

lemma length_line_text: "wf_line l \<Longrightarrow> int (length (line_text l)) = actual l"
  by (auto simp: wf_line_def line_text_def live_def)

lemma grow_line_wf:
  assumes "wf_line l"
  shows "wf_line (grow_line l)" "line_text (grow_line l) = line_text l"
    "actual (grow_line l) = actual l" "available l < available (grow_line l)"
  using assms by (auto simp: wf_line_def grow_line_def Let_def realloc_def line_text_def live_def)

lemma insert_cells_mid:
  assumes "k < a" "a < length cs"
  shows "take (Suc a) ((take (Suc k) cs @ take (a - k) (drop k cs) @ drop (Suc a) cs)[k := c])
         = take k cs @ c # take (a - k) (drop k cs)"
proof -
  have "(take (Suc k) cs @ take (a - k) (drop k cs) @ drop (Suc a) cs)[k := c]
        = (take (Suc k) cs)[k := c] @ take (a - k) (drop k cs) @ drop (Suc a) cs"
    using assms by (simp add: list_update_append1)
  moreover have "(take (Suc k) cs)[k := c] = take k cs @ [c]"
  proof -
    have "length (take k cs) = k" using assms by simp
    then have "(take k cs @ cs ! k # [])[k := c] = take k cs @ c # []"
      using list_update_length [of "take k cs" "cs ! k" "[]" c] by simp
    then show ?thesis using assms by (simp add: take_Suc_conv_app_nth)
  qed
  ultimately show ?thesis using assms by (simp add: Suc_diff_le)
qed

lemma insert_cells_end:
  assumes "a < length cs"
  shows "take (Suc a) (cs[a := c]) = take a cs @ [c]"
proof -
  have "length (take a cs) = a" using assms by simp
  then have "(take a cs @ cs ! a # [])[a := c] = take a cs @ c # []"
    using list_update_length [of "take a cs" "cs ! a" "[]" c] by simp
  moreover have "take (Suc a) (cs[a := c]) = (take (Suc a) cs)[a := c]"
    by (simp add: take_update_swap)
  ultimately show ?thesis using assms by (simp add: take_Suc_conv_app_nth)
qed

lemma line_insert_cells:
  assumes wf: "wf_line line" and o: "0 \<le> offs" "offs \<le> actual line"
    and l1: "line1 = (if actual line = available line then grow_line line else line)"
    and l2: "(if offs < actual line1 then move_cells line1 (offs + 1) offs (actual line1 - offs)
              else Inr line1) = Inr line2"
    and l3: "set_cell line2 offs c = Inr line3"
  shows "wf_line (line3\<lparr>actual := actual line3 + 1\<rparr>)"
    "line_text (line3\<lparr>actual := actual line3 + 1\<rparr>)
       = take (nat offs) (line_text line) @ codepoint c # drop (nat offs) (line_text line)"
proof -
  have w1: "wf_line line1" and t1: "line_text line1 = line_text line"
    and a1: "actual line1 = actual line" and r1: "actual line1 < available line1"
    using wf l1 grow_line_wf [OF wf] by (auto simp: wf_line_def)
  let ?cs = "cells line1" and ?a = "nat (actual line)" and ?k = "nat offs"
  have len: "?a < length ?cs" using w1 a1 r1 by (auto simp: wf_line_def)
  have k: "?k \<le> ?a" using o by simp
  have c3: "take (Suc ?a) (cells line3) = take ?k ?cs @ c # take (?a - ?k) (drop ?k ?cs)"
    and n3: "length (cells line3) = length ?cs" and a3: "actual line3 = actual line"
    and v3: "available line3 = available line1"
  proof -
    show "take (Suc ?a) (cells line3) = take ?k ?cs @ c # take (?a - ?k) (drop ?k ?cs)"
    proof (cases "offs < actual line")
      case True
      then have kk: "?k < ?a" using o by simp
      have n: "nat (offs + 1) = Suc ?k" "nat (actual line - offs) = ?a - ?k"
        "nat (offs + 1 + (actual line - offs)) = Suc ?a"
        using o by (simp_all add: nat_add_distrib nat_diff_distrib)
      from True l2 a1 obtain cs2 where "memmove ?cs (offs + 1) offs (actual line - offs) = Inr cs2"
        and "cells line2 = cs2"
        by (auto simp: move_cells_def)
      then have "cells line2 = take (Suc ?k) ?cs @ take (?a - ?k) (drop ?k ?cs) @ drop (Suc ?a) ?cs"
        unfolding memmove_def n [symmetric] by (simp split: if_splits)
      with l3 have "cells line3 = (take (Suc ?k) ?cs @ take (?a - ?k) (drop ?k ?cs) @ drop (Suc ?a) ?cs)[?k := c]"
        by (auto simp: set_cell_def split: if_splits)
      then show ?thesis using insert_cells_mid [OF kk len] by simp
    next
      case False
      then have "?k = ?a" using o by simp
      moreover from False l2 a1 have "line2 = line1" by simp
      ultimately have "cells line3 = ?cs[?a := c]" using l3 by (auto simp: set_cell_def split: if_splits)
      then show ?thesis using insert_cells_end [OF len] \<open>?k = ?a\<close> by simp
    qed
    show "length (cells line3) = length ?cs" "actual line3 = actual line" "available line3 = available line1"
      using l2 l3 a1 o by (auto simp: move_cells_def memmove_def set_cell_def split: if_splits)
  qed
  show "wf_line (line3\<lparr>actual := actual line3 + 1\<rparr>)"
    using w1 a1 r1 n3 a3 v3 by (auto simp: wf_line_def)
  have "line_text (line3\<lparr>actual := actual line3 + 1\<rparr>) = map codepoint (take (Suc ?a) (cells line3))"
    using wf a3 by (simp add: line_text_def live_def wf_line_def nat_add_distrib)
  also have "\<dots> = take ?k (map codepoint ?cs) @ codepoint c # take (?a - ?k) (drop ?k (map codepoint ?cs))"
    by (simp add: c3 take_map drop_map)
  also have "take ?k (map codepoint ?cs) = take ?k (line_text line)"
    unfolding t1 [symmetric] using k a1 by (simp add: line_text_def live_def take_map min_def)
  also have "take (?a - ?k) (drop ?k (map codepoint ?cs)) = drop ?k (line_text line)"
    unfolding t1 [symmetric] using k a1 by (simp add: line_text_def live_def take_map drop_map drop_take)
  finally show "line_text (line3\<lparr>actual := actual line3 + 1\<rparr>)
       = take (nat offs) (line_text line) @ codepoint c # drop (nat offs) (line_text line)" .
qed

lemma bare_line_istate [simp]: "bare_line (l\<lparr>istate := r\<rparr>) = bare_line l"
  by (simp add: bare_line_def)

lemma same_text_update:
  assumes "slot env i = Inr l" "bare_line l' = bare_line l"
  shows "same_text (env\<lparr>lines := (lines env)[nat i := Some l']\<rparr>) env"
proof -
  from assms(1) have i: "nat i < length (lines env)" "lines env ! nat i = Some l"
    by (auto simp: slot_def split: if_splits option.splits)
  have "map (map_option bare_line) ((lines env)[nat i := Some l'])
        = (map (map_option bare_line) (lines env))[nat i := Some (bare_line l)]"
    by (simp add: map_update assms(2))
  also have "\<dots> = map (map_option bare_line) (lines env)"
    using i by (simp add: list_update_same_conv)
  finally show ?thesis by (simp add: same_text_def)
qed

lemma reset_istates_same_text:
  "reset_istates env ns = Inr env' \<Longrightarrow> same_text env' env"
proof (induction ns arbitrary: env)
  case Nil
  then show ?case by simp
next
  case (Cons i ns)
  from Cons.prems obtain line line1 where l: "slot env (int i) = Inr line"
    and t: "recalculate_tabs env (line\<lparr>istate := 0\<rparr>) = Inr line1"
    and r: "reset_istates (env\<lparr>lines := (lines env)[i := Some line1]\<rparr>) ns = Inr env'"
    by (auto split: sum.splits)
  have "bare_line line1 = bare_line line" using recalculate_tabs_bare [OF t] by simp
  then have "same_text (env\<lparr>lines := (lines env)[nat (int i) := Some line1]\<rparr>) env"
    by (rule same_text_update [OF l])
  then show ?case using Cons.IH [OF r] by (auto intro: same_text_trans)
qed

lemma recalculate_all_same_text:
  "recalculate_all syn env ns = Inr env' \<Longrightarrow> same_text env' env"
proof (induction ns arbitrary: env)
  case Nil
  then show ?case by simp
next
  case (Cons i ns)
  from Cons.prems obtain env1 where a: "recalculate_syntax syn env (int i) = Inr env1"
    and r: "recalculate_all syn env1 ns = Inr env'"
    by (auto split: sum.splits)
  show ?case using Cons.IH [OF r] recalculate_syntax_same_text [OF a] by (rule same_text_trans)
qed

lemma place_cursor_actual_fields:
  assumes "place_cursor_actual env = Inr env'"
  shows "env' = env\<lparr>line_no := max 1 (line_no env), col_no := max 1 (col_no env)\<rparr>"
  using assms by (auto simp: place_cursor_actual_def Let_def max_def split: if_splits)

lemma finish_replay_modified:
  assumes "finish_replay syn env = Inr env'"
  shows "modified env' \<longleftrightarrow> history_addr env' \<noteq> Inr (last_save_history env')"
proof -
  define env1 where "env1 = (if line_no env > line_count env then env\<lparr>line_no := line_count env\<rparr> else env)"
  from assms obtain line a env4 env5 where l: "slot env1 (line_no env1 - 1) = Inr line"
    and a: "history_addr (if col_no env1 > actual line then env1\<lparr>col_no := actual line\<rparr> else env1) = Inr a"
    and r: "reset_istates ((if col_no env1 > actual line then env1\<lparr>col_no := actual line\<rparr> else env1)
              \<lparr>modified := (a \<noteq> last_save_history (if col_no env1 > actual line then env1\<lparr>col_no := actual line\<rparr> else env1)),
                loading := False\<rparr>)
              [0 ..< nat (line_count (if col_no env1 > actual line then env1\<lparr>col_no := actual line\<rparr> else env1))] = Inr env4"
    and c: "recalculate_all syn env4 [0 ..< nat (line_count env4)] = Inr env5"
    and p: "place_cursor_actual env5 = Inr env'"
    unfolding finish_replay_def env1_def [symmetric] Let_def by auto
  have ha: "history_addr env = Inr a" and ls: "last_save_history (if col_no env1 > actual line then env1\<lparr>col_no := actual line\<rparr> else env1) = last_save_history env"
    using a by (auto simp: history_addr_def env1_def split: if_splits)
  have s: "same_text env5 ((if col_no env1 > actual line then env1\<lparr>col_no := actual line\<rparr> else env1)
              \<lparr>modified := (a \<noteq> last_save_history env), loading := False\<rparr>)"
    using same_text_trans [OF recalculate_all_same_text [OF c] reset_istates_same_text [OF r]] ls by simp
  have "modified env5 = (a \<noteq> last_save_history env)" "journal env5 = journal env"
    "history env5 = history env" "last_save_history env5 = last_save_history env"
    using same_text_fields(4,8,9,10) [OF s] by (simp_all add: env1_def)
  moreover have "history_addr env5 = Inr a"
    using calculation ha by (auto simp: history_addr_def split: if_splits)
  moreover have "modified env' = modified env5" "history_addr env' = history_addr env5"
    "last_save_history env' = last_save_history env5"
    using place_cursor_actual_fields [OF p] by (simp_all add: history_addr_def)
  ultimately show ?thesis by simp
qed

section \<open>The next match\<close>












lemma slot_coffset [simp]: "slot (env\<lparr>coffset := c\<rparr>) i = slot env i"
  by (simp add: slot_def)

lemma slot_cursor [simp]: "slot (env\<lparr>col_no := c, line_no := l\<rparr>) i = slot env i"
  by (simp add: slot_def)

lemma searchable_coffset [simp]: "searchable (env\<lparr>coffset := c\<rparr>) = searchable env"
  by (simp add: searchable_def)

lemma first_match_coffset [simp]:
  "first_match lower ic str (env\<lparr>coffset := c\<rparr>) line col = first_match lower ic str env line col"
proof -
  have "occurs_at lower ic str (env\<lparr>coffset := c\<rparr>) = occurs_at lower ic str env"
    by (simp add: fun_eq_iff occurs_at_def)
  moreover have "line_len (env\<lparr>coffset := c\<rparr>) = line_len env"
    by (simp add: fun_eq_iff line_len_def)
  ultimately show ?thesis by (simp add: first_match_def positions_from_def)
qed






section \<open>What the editing primitives leave alone\<close>

lemma same_frame_refl [simp]: "same_frame a a"
  by (simp add: same_frame_def)

lemma same_frame_sym: "same_frame a b \<Longrightarrow> same_frame b a"
  by (simp add: same_frame_def)

lemma same_frame_trans [trans]: "same_frame a b \<Longrightarrow> same_frame b c \<Longrightarrow> same_frame a c"
  by (simp add: same_frame_def)

lemma same_frame_fields:
  assumes "same_frame a b"
  shows "modified a = modified b" "journal a = journal b" "history a = history b"
    "last_save_history a = last_save_history b" "next_addr a = next_addr b"
    "mode a = mode b" "line_no a = line_no b" "col_no a = col_no b"
    "line_count a = line_count b" "loading a = loading b" "coffset a = coffset b"
    "line_avail a = line_avail b"
proof -
  from assms have e: "a\<lparr>lines := []\<rparr> = b\<lparr>lines := []\<rparr>" by (simp add: same_frame_def)
  have "modified (a\<lparr>lines := []\<rparr>) = modified (b\<lparr>lines := []\<rparr>)" by (simp only: e)
  then show "modified a = modified b" by simp
  have "journal (a\<lparr>lines := []\<rparr>) = journal (b\<lparr>lines := []\<rparr>)" by (simp only: e)
  then show "journal a = journal b" by simp
  have "history (a\<lparr>lines := []\<rparr>) = history (b\<lparr>lines := []\<rparr>)" by (simp only: e)
  then show "history a = history b" by simp
  have "last_save_history (a\<lparr>lines := []\<rparr>) = last_save_history (b\<lparr>lines := []\<rparr>)" by (simp only: e)
  then show "last_save_history a = last_save_history b" by simp
  have "next_addr (a\<lparr>lines := []\<rparr>) = next_addr (b\<lparr>lines := []\<rparr>)" by (simp only: e)
  then show "next_addr a = next_addr b" by simp
  have "mode (a\<lparr>lines := []\<rparr>) = mode (b\<lparr>lines := []\<rparr>)" by (simp only: e)
  then show "mode a = mode b" by simp
  have "line_no (a\<lparr>lines := []\<rparr>) = line_no (b\<lparr>lines := []\<rparr>)" by (simp only: e)
  then show "line_no a = line_no b" by simp
  have "col_no (a\<lparr>lines := []\<rparr>) = col_no (b\<lparr>lines := []\<rparr>)" by (simp only: e)
  then show "col_no a = col_no b" by simp
  have "line_count (a\<lparr>lines := []\<rparr>) = line_count (b\<lparr>lines := []\<rparr>)" by (simp only: e)
  then show "line_count a = line_count b" by simp
  have "loading (a\<lparr>lines := []\<rparr>) = loading (b\<lparr>lines := []\<rparr>)" by (simp only: e)
  then show "loading a = loading b" by simp
  have "coffset (a\<lparr>lines := []\<rparr>) = coffset (b\<lparr>lines := []\<rparr>)" by (simp only: e)
  then show "coffset a = coffset b" by simp
  have "line_avail (a\<lparr>lines := []\<rparr>) = line_avail (b\<lparr>lines := []\<rparr>)" by (simp only: e)
  then show "line_avail a = line_avail b" by simp
qed

lemma same_text_frame: "same_text a b \<Longrightarrow> same_frame a b"
  by (simp add: same_text_def same_frame_def)

lemma recalculate_syntax_frame: "recalculate_syntax syn env lno = Inr env' \<Longrightarrow> same_frame env' env"
  by (rule same_text_frame) (rule recalculate_syntax_same_text)

lemma set_slot_frame: "set_slot env i l = Inr env' \<Longrightarrow> same_frame env' env"
  by (auto simp: set_slot_def same_frame_def split: if_splits)

lemma same_frame_lines [simp]: "same_frame (a\<lparr>lines := ls\<rparr>) b = same_frame a b"
  "same_frame a (b\<lparr>lines := ls\<rparr>) = same_frame a b"
  by (simp_all add: same_frame_def)

lemma same_frame_line_count:
  "same_frame a b \<Longrightarrow> same_frame (a\<lparr>line_count := n\<rparr>) (b\<lparr>line_count := n\<rparr>)"
proof -
  assume "same_frame a b"
  then have "(a\<lparr>lines := []\<rparr>)\<lparr>line_count := n\<rparr> = (b\<lparr>lines := []\<rparr>)\<lparr>line_count := n\<rparr>"
    by (simp only: same_frame_def)
  then have "((a\<lparr>lines := []\<rparr>)\<lparr>line_count := n\<rparr>)\<lparr>lines := []\<rparr>
        = ((b\<lparr>lines := []\<rparr>)\<lparr>line_count := n\<rparr>)\<lparr>lines := []\<rparr>"
    by (simp only:)
  then show ?thesis by (simp add: same_frame_def)
qed

text \<open>The store of a changed line, with the recomputes that follow it outside a load.\<close>

lemma store_line_frame:
  assumes "(if \<not> loading env
            then rbind (recalculate_tabs env l) (\<lambda>l1.
                 rbind (set_slot env1 i l1) (\<lambda>env2. recalculate_syntax syn env2 i))
            else set_slot env1 i l') = Inr env3"
  shows "same_frame env3 env1"
proof (cases "loading env")
  case True
  with assms show ?thesis by (auto dest: set_slot_frame)
next
  case False
  with assms obtain l1 env2 where "set_slot env1 i l1 = Inr env2" "recalculate_syntax syn env2 i = Inr env3"
    by auto
  then show ?thesis using same_frame_trans [OF recalculate_syntax_frame set_slot_frame] by blast
qed

lemma line_insert_frame:
  assumes "line_insert cfg syn env c offs lineno = Inr env'"
  shows "same_frame env' (if recording cfg env
            then HIST_APPEND (HISTORY_INSERT lineno offs (uint (codepoint c))) env else env)"
proof -
  from assms obtain l l' where "(if \<not> loading env
            then rbind (recalculate_tabs env l) (\<lambda>l1.
                 rbind (set_slot (if recording cfg env
            then HIST_APPEND (HISTORY_INSERT lineno offs (uint (codepoint c))) env else env) lineno l1) (\<lambda>env2. recalculate_syntax syn env2 lineno))
            else set_slot (if recording cfg env
            then HIST_APPEND (HISTORY_INSERT lineno offs (uint (codepoint c))) env else env) lineno l') = Inr env'"
    unfolding line_insert_def Let_def by auto
  then show ?thesis by (rule store_line_frame)
qed

lemma line_delete_frame:
  assumes "line_delete cfg syn env offs lineno = Inr env'" "offs \<noteq> 0"
  shows "\<exists>old. same_frame env' (if recording cfg env
            then HIST_APPEND (HISTORY_DELETE lineno offs old) env else env)"
proof -
  from assms obtain line env1 l3 env2 where
    e1: "(if recording cfg env
          then rbind (cell_at line (offs - 1)) (\<lambda>old.
                 Inr (HIST_APPEND (HISTORY_DELETE lineno offs (uint (codepoint old))) env))
          else Inr env) = Inr env1"
    and s: "set_slot env1 lineno l3 = Inr env2" and r: "recalculate_syntax syn env2 lineno = Inr env'"
    unfolding line_delete_def by auto
  from e1 obtain old where "env1 = (if recording cfg env
            then HIST_APPEND (HISTORY_DELETE lineno offs old) env else env)"
    by (auto split: if_splits)
  then show ?thesis
    using same_frame_trans [OF recalculate_syntax_frame [OF r] set_slot_frame [OF s]] by blast
qed

lemma line_replace_frame:
  assumes "line_replace cfg syn env c offs lineno = Inr env'"
  shows "\<exists>old. same_frame env' (if recording cfg env
            then HIST_APPEND (HISTORY_REPLACE lineno offs (uint (codepoint c)) old) env else env)"
proof -
  from assms obtain line env1 l l' where
    e1: "(if recording cfg env
          then rbind (cell_at line offs) (\<lambda>old.
                 Inr (HIST_APPEND (HISTORY_REPLACE lineno offs (uint (codepoint c))
                                       (uint (codepoint old))) env))
          else Inr env) = Inr env1"
    and s: "(if \<not> loading env
            then rbind (recalculate_tabs env l) (\<lambda>l1.
                 rbind (set_slot env1 lineno l1) (\<lambda>env2. recalculate_syntax syn env2 lineno))
            else set_slot env1 lineno l') = Inr env'"
    unfolding line_replace_def by auto
  from e1 obtain old where "env1 = (if recording cfg env
            then HIST_APPEND (HISTORY_REPLACE lineno offs (uint (codepoint c)) old) env else env)"
    by (auto split: if_splits)
  then show ?thesis using store_line_frame [OF s] by blast
qed

lemma HIST_APPEND_fields [simp]:
  "lines (HIST_APPEND e env) = lines env" "line_count (HIST_APPEND e env) = line_count env"
  "line_avail (HIST_APPEND e env) = line_avail env" "loading (HIST_APPEND e env) = loading env"
  "modified (HIST_APPEND e env) = modified env" "mode (HIST_APPEND e env) = mode env"
  "line_no (HIST_APPEND e env) = line_no env" "col_no (HIST_APPEND e env) = col_no env"
  "last_save_history (HIST_APPEND e env) = last_save_history env"
  "tabstop (HIST_APPEND e env) = tabstop env" "coffset (HIST_APPEND e env) = coffset env"
  "next_addr (HIST_APPEND e env) = Suc (next_addr env)"
  by (simp_all add: HIST_APPEND_def Let_def)

lemma history_addr_HIST_APPEND [simp]:
  "history_addr (HIST_APPEND e env) = Inr (next_addr env)"
  by (simp add: HIST_APPEND_def Let_def history_addr_def nth_append)

lemma rbindE:
  assumes "rbind r f = Inr y"
  obtains x where "r = Inr x" "f x = Inr y"
  using assms by auto

lemma merge_lines_frame:
  assumes "merge_lines cfg syn env lineb = Inr env'" "slot env (lineb - 1) = Inr la"
  shows "same_frame env' ((if recording cfg env
            then HIST_APPEND (HISTORY_MERGE_LINES lineb (actual la)) env else env)
           \<lparr>line_count := line_count env - 1\<rparr>)"
  using assms unfolding merge_lines_def Let_def
  apply (elim rbindE)
  apply (drule store_line_frame)
  apply (frule same_frame_fields(9))
  apply (drule same_frame_line_count [where n = "line_count env - 1"])
  apply (auto simp: same_frame_def split: if_splits)
  done

section \<open>The modified flag and the journal\<close>

lemma same_frame_tracks:
  "same_frame a b \<Longrightarrow> modified_tracks a = modified_tracks b"
  using same_frame_fields(1,2,3,4) [of a b] by (simp add: modified_tracks_def history_addr_def)

lemma tracks_after_append:
  assumes "same_frame env1 (HIST_APPEND e env)" "last_save_history env < next_addr env"
  shows "history_addr env1 \<noteq> Inr (last_save_history env1)"
proof -
  have "history_addr env1 = history_addr (HIST_APPEND e env)"
    using same_frame_fields(2,3) [OF assms(1)] by (simp add: history_addr_def)
  moreover have "last_save_history env1 = last_save_history env"
    using same_frame_fields(4) [OF assms(1)] by simp
  ultimately show ?thesis using assms(2) by simp
qed

lemma set_modified_fields [simp]:
  "modified (set_modified env) = True" "journal (set_modified env) = journal env"
  "history (set_modified env) = history env" "last_save_history (set_modified env) = last_save_history env"
  "history_addr (set_modified env) = history_addr env"
  by (simp_all add: set_modified_def history_addr_def)

lemma history_addr_cursor [simp]:
  "history_addr (env\<lparr>col_no := c\<rparr>) = history_addr env"
  "history_addr (env\<lparr>line_no := l\<rparr>) = history_addr env"
  "history_addr (env\<lparr>coffset := k\<rparr>) = history_addr env"
  "history_addr (env\<lparr>preferred_column := k\<rparr>) = history_addr env"
  "history_addr (env\<lparr>line_count := l\<rparr>) = history_addr env"
  "history_addr (env\<lparr>loading := b\<rparr>) = history_addr env"
  "history_addr (env\<lparr>lines := ls\<rparr>) = history_addr env"
  by (simp_all add: history_addr_def)

lemma insert_char_tracks:
  assumes "insert_char cfg wcw syn env c = Inr env'" "modified_tracks env"
    "recording cfg env" "last_save_history env < next_addr env"
  shows "modified_tracks env'"
proof (cases "c = 0")
  case True
  with assms show ?thesis by (simp add: insert_char_def)
next
  case False
  with assms(1) obtain env1 where l: "line_insert cfg syn env
                 \<lparr>display_width = word_of_int (codepoint_width cfg wcw (sint c)), flags = 0,
                  codepoint = ucast c\<rparr>
                 (col_no env - 1) (line_no env - 1) = Inr env1"
    and e: "env' = set_modified (env1\<lparr>col_no := col_no env1 + 1\<rparr>)"
    by (auto simp: insert_char_def)
  have "same_frame env1 (HIST_APPEND (HISTORY_INSERT (line_no env - 1) (col_no env - 1)
          (uint (codepoint \<lparr>display_width = word_of_int (codepoint_width cfg wcw (sint c)), flags = 0,
                  codepoint = ucast c :: 21 word\<rparr>))) env)"
    using line_insert_frame [OF l] assms(3) by simp
  then have "history_addr env1 \<noteq> Inr (last_save_history env1)"
    using assms(4) by (rule tracks_after_append)
  then show ?thesis by (simp add: e modified_tracks_def)
qed

lemma replace_char_tracks:
  assumes "replace_char cfg wcw syn env c = Inr env'" "modified_tracks env"
    "recording cfg env" "last_save_history env < next_addr env"
  shows "modified_tracks env'"
proof -
  from assms(1) consider "env' = env"
    | env1 where "line_replace cfg syn env
                  \<lparr>display_width = word_of_int (codepoint_width cfg wcw (sint c)), flags = 0,
                   codepoint = ucast c\<rparr>
                  (col_no env - 1) (line_no env - 1) = Inr env1" "env' = set_modified env1"
    by (auto simp: replace_char_def split: if_splits)
  then show ?thesis
  proof cases
    case 1
    then show ?thesis using assms(2) by simp
  next
    case 2
    obtain old where "same_frame env1 (HIST_APPEND (HISTORY_REPLACE (line_no env - 1) (col_no env - 1)
          (uint (codepoint \<lparr>display_width = word_of_int (codepoint_width cfg wcw (sint c)), flags = 0,
                  codepoint = ucast c :: 21 word\<rparr>)) old) env)"
      using line_replace_frame [OF 2(1)] assms(3) by auto
    then have "history_addr env1 \<noteq> Inr (last_save_history env1)"
      using assms(4) by (rule tracks_after_append)
    then show ?thesis by (simp add: 2(2) modified_tracks_def)
  qed
qed

lemma set_preferred_column_journal:
  assumes "set_preferred_column env = Inr env'"
  shows "modified env' = modified env" "history_addr env' = history_addr env"
    "last_save_history env' = last_save_history env"
  using assms by (auto simp: set_preferred_column_def Let_def history_addr_def split: if_splits)

lemma place_cursor_actual_journal:
  assumes "place_cursor_actual env = Inr env'"
  shows "modified env' = modified env" "history_addr env' = history_addr env"
    "last_save_history env' = last_save_history env"
  using place_cursor_actual_fields [OF assms] by (simp_all add: history_addr_def)

lemma same_frame_history_addr:
  "same_frame a b \<Longrightarrow> history_addr a = history_addr b"
  using same_frame_fields(2,3) [of a b] by (simp add: history_addr_def)

lemma delete_at_cursor_tracks:
  assumes "delete_at_cursor cfg syn env = Inr env'" "modified_tracks env"
    "recording cfg env" "last_save_history env < next_addr env"
  shows "modified_tracks env'"
proof -
  consider "col_no env > 1" | "\<not> col_no env > 1" "line_no env > 1"
    | "\<not> col_no env > 1" "\<not> line_no env > 1" by blast
  then show ?thesis
  proof cases
    case 1
    with assms(1) obtain env1 where d: "line_delete cfg syn env (col_no env - 1) (line_no env - 1) = Inr env1"
      and p0: "(let env2 = env1\<lparr>col_no := col_no env1 - 1\<rparr>;
                 env3 = (if coffset env2 > 0 then env2\<lparr>coffset := coffset env2 - 1\<rparr> else env2)
             in place_cursor_actual (set_modified env3)) = Inr env'"
      by (auto simp: delete_at_cursor_def)
    define env3 where "env3 = (if coffset (env1\<lparr>col_no := col_no env1 - 1\<rparr>) > 0
        then env1\<lparr>col_no := col_no env1 - 1\<rparr>\<lparr>coffset := coffset (env1\<lparr>col_no := col_no env1 - 1\<rparr>) - 1\<rparr>
        else env1\<lparr>col_no := col_no env1 - 1\<rparr>)"
    have p: "place_cursor_actual (set_modified env3) = Inr env'"
      using p0 by (simp add: Let_def env3_def)
    have e3: "modified env3 = modified env1" "history_addr env3 = history_addr env1"
         "last_save_history env3 = last_save_history env1"
      by (simp_all add: env3_def)
    from 1 obtain old where "same_frame env1 (HIST_APPEND (HISTORY_DELETE (line_no env - 1) (col_no env - 1) old) env)"
      using line_delete_frame [OF d] assms(3) by auto
    then have "history_addr env1 \<noteq> Inr (last_save_history env1)"
      using assms(4) by (rule tracks_after_append)
    then show ?thesis using place_cursor_actual_journal [OF p] e3 by (simp add: modified_tracks_def)
  next
    case 2
    with assms(1) obtain above env1 env2 where a: "slot env (line_no env - 2) = Inr above"
      and m: "merge_lines cfg syn env (line_no env - 1) = Inr env1"
      and c: "set_preferred_column (env1\<lparr>line_no := line_no env1 - 1, col_no := actual above + 1\<rparr>) = Inr env2"
      and p: "place_cursor_actual (set_modified env2) = Inr env'"
      by (auto simp: delete_at_cursor_def)
    from a have a': "slot env (line_no env - 1 - 1) = Inr above" by simp
    have f: "same_frame env1 ((HIST_APPEND (HISTORY_MERGE_LINES (line_no env - 1) (actual above)) env)
               \<lparr>line_count := line_count env - 1\<rparr>)"
      using merge_lines_frame [OF m a'] assms(3) by simp
    have "history_addr env1 = Inr (next_addr env)" "last_save_history env1 = last_save_history env"
      using same_frame_history_addr [OF f] same_frame_fields(4) [OF f] by simp_all
    then have "history_addr env2 \<noteq> Inr (last_save_history env2)"
      using set_preferred_column_journal [OF c] assms(4) by simp
    then show ?thesis using place_cursor_actual_journal [OF p] by (simp add: modified_tracks_def)
  next
    case 3
    with assms(1,2) show ?thesis by (simp add: delete_at_cursor_def)
  qed
qed

lemma replace_mode_char_tracks:
  assumes "replace_mode_char cfg wcw syn env c = Inr env'" "modified_tracks env"
    "recording cfg env" "last_save_history env < next_addr env"
  shows "modified_tracks env'"
proof -
  from assms(1) obtain env2 where p: "place_cursor_actual env2 = Inr env'"
    and t: "(\<exists>env1. replace_char cfg wcw syn env c = Inr env1 \<and> env2 = env1\<lparr>col_no := col_no env1 + 1\<rparr>)
            \<or> insert_char cfg wcw syn env c = Inr env2"
    by (auto simp: replace_mode_char_def split: if_splits)
  from t have "modified_tracks env2"
  proof
    assume "\<exists>env1. replace_char cfg wcw syn env c = Inr env1 \<and> env2 = env1\<lparr>col_no := col_no env1 + 1\<rparr>"
    then obtain env1 where r: "replace_char cfg wcw syn env c = Inr env1"
      and e: "env2 = env1\<lparr>col_no := col_no env1 + 1\<rparr>" by blast
    show ?thesis using replace_char_tracks [OF r assms(2,3,4)] by (simp add: e modified_tracks_def)
  next
    assume "insert_char cfg wcw syn env c = Inr env2"
    then show ?thesis using assms(2,3,4) by (rule insert_char_tracks)
  qed
  then show ?thesis using place_cursor_actual_journal [OF p] by (simp add: modified_tracks_def)
qed

lemma write_file_tracks:
  assumes "write_file opened env = Inr env'" "modified_tracks env"
  shows "modified_tracks env'"
  using assms
  by (auto simp: write_file_def modified_tracks_def history_addr_def split: if_splits)

lemma undo_history_cases:
  assumes "undo_history cfg wcw syn env = Inr env'"
  obtains "env' = env" | "env' = env\<lparr>loading := False\<rparr>"
    | env1 where "finish_replay syn env1 = Inr env'"
proof (cases "history_enabled cfg")
  case False
  with assms have "env' = env" by (simp add: undo_history_def)
  then show ?thesis by (rule that(1))
next
  case True
  with assms obtain e where e: "(if e = HISTORY_SENTINEL then Inr (env\<lparr>loading := False\<rparr>)
          else rbind (undo_loop cfg wcw syn (env\<lparr>loading := True\<rparr>) (history env)
                        (rev (map snd (take (Suc (history env)) (journal env)))))
                 (finish_replay syn)) = Inr env'"
    unfolding undo_history_def by (simp only: if_False not_True_eq_False simp_thms) (erule rbindE)
  show ?thesis
  proof (cases "e = HISTORY_SENTINEL")
    case True
    with e have "env' = env\<lparr>loading := False\<rparr>" by simp
    then show ?thesis by (rule that(2))
  next
    case False
    with e have "rbind (undo_loop cfg wcw syn (env\<lparr>loading := True\<rparr>) (history env)
                        (rev (map snd (take (Suc (history env)) (journal env)))))
                 (finish_replay syn) = Inr env'" by (simp only: if_False)
    then obtain env1 where "finish_replay syn env1 = Inr env'" by (rule rbindE)
    then show ?thesis by (rule that(3))
  qed
qed

lemma redo_history_cases:
  assumes "redo_history cfg wcw syn env = Inr env'"
  obtains "env' = env" | "env' = env\<lparr>loading := False\<rparr>"
    | env1 where "finish_replay syn env1 = Inr env'"
proof (cases "history_enabled cfg")
  case False
  with assms have "env' = env" by (simp add: redo_history_def)
  then show ?thesis by (rule that(1))
next
  case True
  show ?thesis
  proof (cases "length (journal env) = Suc (history env)")
    case eq: True
    with assms True have "env' = env\<lparr>loading := False\<rparr>" by (simp add: redo_history_def)
    then show ?thesis by (rule that(2))
  next
    case False
    with assms True have "rbind (redo_loop cfg wcw syn (env\<lparr>loading := True\<rparr>) (Suc (history env))
                    (map snd (drop (Suc (history env)) (journal env))))
             (finish_replay syn) = Inr env'"
      unfolding redo_history_def by (simp split: if_splits)
    then obtain env1 where "finish_replay syn env1 = Inr env'" by (rule rbindE)
    then show ?thesis by (rule that(3))
  qed
qed

lemma undo_history_tracks:
  assumes "undo_history cfg wcw syn env = Inr env'" "modified_tracks env"
  shows "modified_tracks env'"
  using assms(1)
proof (cases rule: undo_history_cases)
  case 3
  then show ?thesis unfolding modified_tracks_def by (rule finish_replay_modified)
qed (use assms(2) in \<open>simp_all add: modified_tracks_def\<close>)

lemma redo_history_tracks:
  assumes "redo_history cfg wcw syn env = Inr env'" "modified_tracks env"
  shows "modified_tracks env'"
  using assms(1)
proof (cases rule: redo_history_cases)
  case 3
  then show ?thesis unfolding modified_tracks_def by (rule finish_replay_modified)
qed (use assms(2) in \<open>simp_all add: modified_tracks_def\<close>)

text \<open>
  C2 (as amended). With the journal enabled, from a state in which the modified flag
  is set exactly when the current record is not the one of the last save (and that
  one is a record already made), every edit, save, undo and redo that returns leaves
  such a state again, and a save also leaves the flag cleared.
\<close>

theorem modified_tracks_preserved:
  assumes "modified_tracks env" and "history_enabled cfg" "\<not> loading env"
    and "last_save_history env < next_addr env"
  shows "(\<forall>env'. insert_char cfg wcw syn env c = Inr env' \<longrightarrow> modified_tracks env')
     \<and> (\<forall>env'. replace_char cfg wcw syn env c = Inr env' \<longrightarrow> modified_tracks env')
     \<and> (\<forall>env'. replace_mode_char cfg wcw syn env c = Inr env' \<longrightarrow> modified_tracks env')
     \<and> (\<forall>env'. delete_at_cursor cfg syn env = Inr env' \<longrightarrow> modified_tracks env')
     \<and> (\<forall>env'. write_file opened env = Inr env' \<longrightarrow>
            modified_tracks env' \<and> (opened \<longrightarrow> \<not> modified env'))
     \<and> (\<forall>env'. undo_history cfg wcw syn env = Inr env' \<longrightarrow> modified_tracks env')
     \<and> (\<forall>env'. redo_history cfg wcw syn env = Inr env' \<longrightarrow> modified_tracks env')"
proof -
  have r: "recording cfg env" using assms(2,3) by (simp add: recording_def)
  show ?thesis
  proof (intro conjI allI impI)
    fix env' assume "insert_char cfg wcw syn env c = Inr env'"
    then show "modified_tracks env'" using assms(1) r assms(4) by (rule insert_char_tracks)
  next
    fix env' assume "replace_char cfg wcw syn env c = Inr env'"
    then show "modified_tracks env'" using assms(1) r assms(4) by (rule replace_char_tracks)
  next
    fix env' assume "replace_mode_char cfg wcw syn env c = Inr env'"
    then show "modified_tracks env'" using assms(1) r assms(4) by (rule replace_mode_char_tracks)
  next
    fix env' assume "delete_at_cursor cfg syn env = Inr env'"
    then show "modified_tracks env'" using assms(1) r assms(4) by (rule delete_at_cursor_tracks)
  next
    fix env' assume "write_file opened env = Inr env'"
    then show "modified_tracks env'" using assms(1) by (rule write_file_tracks)
  next
    fix env' assume "write_file opened env = Inr env'" opened
    then show "\<not> modified env'" by (auto simp: write_file_def split: if_splits)
  next
    fix env' assume "undo_history cfg wcw syn env = Inr env'"
    then show "modified_tracks env'" using assms(1) by (rule undo_history_tracks)
  next
    fix env' assume "redo_history cfg wcw syn env = Inr env'"
    then show "modified_tracks env'" using assms(1) by (rule redo_history_tracks)
  qed
qed

text \<open>
  C2 as stated fails after a history break. The character of a one-line buffer is
  replaced (\<open>r\<close> in Normal mode) and the buffer is saved: the record of the replacement
  is the one of the last save. Insert mode is then entered and left without a change:
  \<open>leave_insert\<close> appends a break, the current record is no longer the saved one, and
  the flag stays cleared.
\<close>

theorem modified_after_break_counterexample:
  "map_sum id (\<lambda>e. (modified e, history_addr e, last_save_history e))
     (rbind (rbind (replace_char default_config wcwidth_1 None (loaded_buffer [[0x61]]) 0x78)
               (write_file True))
        (\<lambda>e. leave_insert default_config (e\<lparr>mode := MODE_INSERT\<rparr>)))
   = Inr (False, Inr 2, 1)"
  by code_simp


end
